theory Spec2Isabelle
  imports Main "HOL-Library.Word" "HOL-Library.AList"
begin

section \<open>The flow package: graphs of nodes behind pointers\<close>

text \<open>
  The Go code of \<^verbatim>\<open>libary/flow\<close> works on \<^verbatim>\<open>*Dag\<close> and \<^verbatim>\<open>*Node\<close>:
  every node is shared by pointer between the graph's map and the slices of its
  neighbours, and every method mutates in place. The embedding therefore keeps an
  explicit store: one table of nodes and one table of graphs, each addressed by a
  natural number, with an allocation counter. A pointer is an address; a nil-able
  pointer is an \<open>option\<close>. Every method takes the store and returns the new store
  next to what the Go method returns.

  Go's \<^verbatim>\<open>int\<close> is modelled as \<open>int\<close>: the counters of this package (indices,
  degrees) change by one per call and stay far from the 64-bit bounds.
\<close>

type_synonym node_ref = nat
type_synonym dag_ref = nat
type_synonym bytes = "8 word list"

text \<open>The package's error values (the \<^verbatim>\<open>var\<close> block of dag.go). \<open>ErrMultipleStart\<close>
  carries the id of the flow that \<^verbatim>\<open>Validate\<close> formats into it; \<open>TaskError\<close> stands
  for whatever error a task returns.\<close>

datatype error =
    ErrNoVertex
  | ErrCyclic
  | ErrDuplicateEdge
  | ErrDuplicateVertex
  | ErrMultipleStart string
  | ErrRecursiveDep
  | TaskError string

type_synonym Forwarder = "bytes \<Rightarrow> bytes"
type_synonym Aggregator = "(string \<rightharpoonup> bytes) \<Rightarrow> bytes \<times> error option"
type_synonym ForEach = "bytes \<Rightarrow> (string \<rightharpoonup> bytes)"
type_synonym Condition = "bytes \<Rightarrow> string list"

text \<open>The shared run state \<^verbatim>\<open>DataSet\<close> and a task: \<^verbatim>\<open>Run(ctx, data) error\<close> may
  write to the data set and returns nil or an error.\<close>

type_synonym DataSet = "string \<rightharpoonup> string"
type_synonym Task = "DataSet \<Rightarrow> DataSet \<times> error option"

text \<open>Modelled from the spec: the interface \<^verbatim>\<open>Operation\<close> and its implementation
  \<^verbatim>\<open>BlankOperation\<close> are used by dag.go and declared nowhere under src/; the spec
  calls the synthetic exit a no-op node. Only the blank operation is ever built by the
  code modelled here.\<close>

datatype Operation = BlankOperation | UserOperation string

text \<open>\<^verbatim>\<open>Node\<close>, field by field. \<^verbatim>\<open>parentDag\<close> is a plain address: every node comes from
  \<^verbatim>\<open>AddVertex\<close>, which sets it. A forwarder registered as nil is an entry \<open>Some None\<close> of
  the map \<^verbatim>\<open>forwarder\<close>.\<close>

record Node =
  Id :: string
  index :: int
  uniqueId :: string
  subDag :: "dag_ref option"
  conditionalDags :: "(string \<times> dag_ref) list"
  operations :: "Operation list"
  dynamic :: bool
  aggregator :: "Aggregator option"
  foreach :: "ForEach option"
  condition :: "Condition option"
  subAggregator :: "Aggregator option"
  forwarder :: "string \<rightharpoonup> Forwarder option"
  task :: "Task option"
  parentDag :: dag_ref
  indegree :: int
  dynamicIndegree :: int
  outdegree :: int
  children :: "node_ref list"
  dependsOn :: "node_ref list"
  "next" :: "node_ref list"
  prev :: "node_ref list"

text \<open>
  \<^verbatim>\<open>Dag.nodes\<close> is a Go map from id to \<^verbatim>\<open>*Node\<close>. It is kept as an association list
  with one entry per key: \<^verbatim>\<open>range\<close> over a Go map visits every entry once in an order
  the language leaves open, and the order of the list stands for that order. A property
  proved for every list therefore holds for every order of iteration. A loop over the
  map visits the entries the map had when the loop began. The field \<^verbatim>\<open>Id\<close> of \<^verbatim>\<open>Dag\<close>
  is \<open>dagId\<close> here, \<open>Id\<close> being the node's.
\<close>

record Dag =
  dagId :: string
  nodes :: "(string \<times> node_ref) list"
  parentNode :: "node_ref option"
  initialNode :: "node_ref option"
  endNode :: "node_ref option"
  hasBranch :: bool
  hasEdge :: bool
  validated :: bool
  executionFlow :: bool
  dataForwarderCount :: int
  nodeIndex :: int

record Store =
  nodeH :: "node_ref \<Rightarrow> Node"
  nodeN :: nat
  dagH :: "dag_ref \<Rightarrow> Dag"
  dagN :: nat

definition upd_node :: "node_ref \<Rightarrow> (Node \<Rightarrow> Node) \<Rightarrow> Store \<Rightarrow> Store" where
  "upd_node p f s = s\<lparr>nodeH := (nodeH s)(p := f (nodeH s p))\<rparr>"

definition upd_dag :: "dag_ref \<Rightarrow> (Dag \<Rightarrow> Dag) \<Rightarrow> Store \<Rightarrow> Store" where
  "upd_dag d f s = s\<lparr>dagH := (dagH s)(d := f (dagH s d))\<rparr>"

definition DefaultForwarder :: Forwarder where
  "DefaultForwarder = (\<lambda>data. data)"

subsection \<open>Formatting\<close>

text \<open>\<^verbatim>\<open>fmt.Sprintf\<close> with \<^verbatim>\<open>%d\<close>: the decimal digits of an integer.\<close>

definition digit_char :: "nat \<Rightarrow> char" where
  "digit_char n = ''0123456789'' ! n"

fun string_of_nat :: "nat \<Rightarrow> string" where
  "string_of_nat n =
     (if n < 10 then [digit_char n] else string_of_nat (n div 10) @ [digit_char (n mod 10)])"

declare string_of_nat.simps [simp del]

definition string_of_int :: "int \<Rightarrow> string" where
  "string_of_int i = (if i < 0 then ''-'' @ string_of_nat (nat (- i)) else string_of_nat (nat i))"

subsection \<open>node.go\<close>

text \<open>\<^verbatim>\<open>inSlice\<close> compares ids, not pointers.\<close>

fun inSlice :: "Store \<Rightarrow> node_ref \<Rightarrow> node_ref list \<Rightarrow> bool" where
  "inSlice s node [] = False"
| "inSlice s node (b # list) =
     (if Id (nodeH s b) = Id (nodeH s node) then True else inSlice s node list)"

text \<open>\<^verbatim>\<open>AddForwarder\<close>: the entry is stored even when the forwarder is nil; the count of the
  owning graph goes up for a forwarder and down for nil.\<close>

definition AddForwarder :: "Store \<Rightarrow> node_ref \<Rightarrow> string \<Rightarrow> Forwarder option \<Rightarrow> Store" where
  "AddForwarder s node child fw =
     (let s1 = upd_node node (\<lambda>n. n\<lparr>forwarder := (forwarder n)(child \<mapsto> fw)\<rparr>) s;
          pd = parentDag (nodeH s1 node)
      in if fw \<noteq> None then
           upd_dag pd (\<lambda>d. d\<lparr>dataForwarderCount := dataForwarderCount d + 1,
                               executionFlow := False\<rparr>) s1
         else
           (let s2 = upd_dag pd (\<lambda>d. d\<lparr>dataForwarderCount := dataForwarderCount d - 1\<rparr>) s1
            in if dataForwarderCount (dagH s2 pd) = 0
               then upd_dag pd (\<lambda>d. d\<lparr>executionFlow := True\<rparr>) s2
               else s2))"

definition generateUniqueId :: "Node \<Rightarrow> string \<Rightarrow> string" where
  "generateUniqueId node dagid = dagid @ ''_'' @ string_of_int (index node) @ ''_'' @ Id node"

text \<open>\<^verbatim>\<open>AddForEach\<close> and \<^verbatim>\<open>AddCondition\<close> make the node dynamic and register the default
  forwarder under the key \<open>dynamic\<close>.\<close>

definition AddForEach :: "Store \<Rightarrow> node_ref \<Rightarrow> ForEach \<Rightarrow> Store" where
  "AddForEach s node fe =
     (let s1 = upd_node node (\<lambda>n. n\<lparr>foreach := Some fe\<rparr>) s;
          s2 = upd_node node (\<lambda>n. n\<lparr>dynamic := True\<rparr>) s1
      in AddForwarder s2 node ''dynamic'' (Some DefaultForwarder))"

definition AddCondition :: "Store \<Rightarrow> node_ref \<Rightarrow> Condition \<Rightarrow> Store" where
  "AddCondition s node cnd =
     (let s1 = upd_node node (\<lambda>n. n\<lparr>condition := Some cnd\<rparr>) s;
          s2 = upd_node node (\<lambda>n. n\<lparr>dynamic := True\<rparr>) s1
      in AddForwarder s2 node ''dynamic'' (Some DefaultForwarder))"

text \<open>The loop of \<^verbatim>\<open>AddSubDag\<close> that walks from the node's graph up the chain of owning
  nodes, looking for the graph to attach. The chain can be a cycle, so the walk carries
  fuel; \<open>Some True\<close> is the recursive inclusion found.\<close>

fun walk_parents :: "nat \<Rightarrow> Store \<Rightarrow> dag_ref \<Rightarrow> dag_ref \<Rightarrow> bool option" where
  "walk_parents 0 s pdag sub = None"
| "walk_parents (Suc fuel) s pdag sub =
     (if pdag = sub then Some True
      else case parentNode (dagH s pdag) of
             Some pnode \<Rightarrow> walk_parents fuel s (parentDag (nodeH s pnode)) sub
           | None \<Rightarrow> Some False)"

definition AddSubDag :: "nat \<Rightarrow> Store \<Rightarrow> node_ref \<Rightarrow> dag_ref \<Rightarrow> (Store \<times> error option) option" where
  "AddSubDag fuel s node sub =
     (case walk_parents fuel s (parentDag (nodeH s node)) sub of
        None \<Rightarrow> None
      | Some True \<Rightarrow> Some (s, Some ErrRecursiveDep)
      | Some False \<Rightarrow>
          (let s1 = upd_node node (\<lambda>n. n\<lparr>subDag := Some sub\<rparr>) s;
               s2 = upd_dag sub (\<lambda>d. d\<lparr>parentNode := Some node\<rparr>) s1
           in Some (s2, None)))"

text \<open>\<^verbatim>\<open>AddForEachDag\<close> and \<^verbatim>\<open>AddConditionalDag\<close> attach without that walk.\<close>

definition AddForEachDag :: "Store \<Rightarrow> node_ref \<Rightarrow> dag_ref \<Rightarrow> Store \<times> error option" where
  "AddForEachDag s node sub =
     (let s1 = upd_node node (\<lambda>n. n\<lparr>subDag := Some sub\<rparr>) s;
          s2 = upd_dag sub (\<lambda>d. d\<lparr>parentNode := Some node\<rparr>) s1;
          s3 = upd_dag (parentDag (nodeH s2 node)) (\<lambda>d. d\<lparr>hasBranch := True\<rparr>) s2;
          s4 = upd_dag (parentDag (nodeH s3 node)) (\<lambda>d. d\<lparr>hasEdge := True\<rparr>) s3
      in (s4, None))"

definition AddConditionalDag :: "Store \<Rightarrow> node_ref \<Rightarrow> string \<Rightarrow> dag_ref \<Rightarrow> Store" where
  "AddConditionalDag s node cond cdag =
     (let s1 = upd_node node
                 (\<lambda>n. n\<lparr>conditionalDags := AList.update cond cdag (conditionalDags n)\<rparr>) s;
          s2 = upd_dag cdag (\<lambda>d. d\<lparr>parentNode := Some node\<rparr>) s1;
          s3 = upd_dag (parentDag (nodeH s2 node)) (\<lambda>d. d\<lparr>hasBranch := True\<rparr>) s2;
          s4 = upd_dag (parentDag (nodeH s3 node)) (\<lambda>d. d\<lparr>hasEdge := True\<rparr>) s3
      in s4)"

subsection \<open>dag.go: construction\<close>

definition NewDag :: "Store \<Rightarrow> Store \<times> dag_ref" where
  "NewDag s =
     (let d = dagN s;
          dag = \<lparr>dagId = ''0'', nodes = [], parentNode = None, initialNode = None,
                 endNode = None, hasBranch = False, hasEdge = False, validated = False,
                 executionFlow = True, dataForwarderCount = 0, nodeIndex = 0\<rparr>
      in (s\<lparr>dagH := (dagH s)(d := dag), dagN := Suc d\<rparr>, d))"

text \<open>\<^verbatim>\<open>AddVertex\<close> allocates a node and stores it under \<open>id\<close>, whatever was there.\<close>

definition AddVertex :: "Store \<Rightarrow> dag_ref \<Rightarrow> string \<Rightarrow> Operation list \<Rightarrow> Store \<times> node_ref" where
  "AddVertex s dag ident ops =
     (let p = nodeN s;
          node = \<lparr>Id = ident, index = nodeIndex (dagH s dag) + 1, uniqueId = [],
                  subDag = None, conditionalDags = [], operations = ops, dynamic = False,
                  aggregator = None, foreach = None, condition = None, subAggregator = None,
                  forwarder = Map.empty, task = None, parentDag = dag,
                  indegree = 0, dynamicIndegree = 0, outdegree = 0,
                  children = [], dependsOn = [], next = [], prev = []\<rparr>;
          s1 = s\<lparr>nodeH := (nodeH s)(p := node), nodeN := Suc p\<rparr>;
          s2 = upd_dag dag (\<lambda>d. d\<lparr>nodeIndex := nodeIndex d + 1\<rparr>) s1;
          s3 = upd_dag dag (\<lambda>d. d\<lparr>nodes := AList.update ident p (nodes d)\<rparr>) s2
      in (s3, p))"

text \<open>\<^verbatim>\<open>dag.nodes[id]\<close>, creating the vertex when the lookup gives nil.\<close>

definition lookup_or_add :: "Store \<Rightarrow> dag_ref \<Rightarrow> string \<Rightarrow> Store \<times> node_ref" where
  "lookup_or_add s dag ident =
     (case map_of (nodes (dagH s dag)) ident of
        None \<Rightarrow> AddVertex s dag ident []
      | Some p \<Rightarrow> (s, p))"

text \<open>The two loops of \<^verbatim>\<open>AddEdge\<close> that push the new reachability to the ancestors of
  \<open>from\<close> and to the descendants of \<open>to\<close>. Each reads the other node's list at the moment
  of the append, as the Go statement does.\<close>

fun push_next :: "node_ref \<Rightarrow> node_ref list \<Rightarrow> Store \<Rightarrow> Store" where
  "push_next toNode [] s = s"
| "push_next toNode (b # bs) s =
     (let s1 = upd_node b (\<lambda>n. n\<lparr>next := next n @ [toNode]\<rparr>) s;
          s2 = upd_node b (\<lambda>n. n\<lparr>next := next n @ next (nodeH s1 toNode)\<rparr>) s1
      in push_next toNode bs s2)"

fun push_prev :: "node_ref \<Rightarrow> node_ref list \<Rightarrow> Store \<Rightarrow> Store" where
  "push_prev fromNode [] s = s"
| "push_prev fromNode (b # bs) s =
     (let s1 = upd_node b (\<lambda>n. n\<lparr>prev := prev n @ [fromNode]\<rparr>) s;
          s2 = upd_node b (\<lambda>n. n\<lparr>prev := prev n @ prev (nodeH s1 fromNode)\<rparr>) s1
      in push_prev fromNode bs s2)"

text \<open>The part of \<^verbatim>\<open>AddEdge\<close> after both checks have passed, in the source's
  blocks: lines 120 to 126 (the descendants cached in \<^verbatim>\<open>next\<close>), lines 128 to 134
  (the ancestors cached in \<^verbatim>\<open>prev\<close>), lines 136 to 142 (the edge itself and the
  degrees), lines 144 to 152 (forwarder and flags).\<close>

definition link_next :: "Store \<Rightarrow> node_ref \<Rightarrow> node_ref \<Rightarrow> Store" where
  "link_next s fromNode toNode =
     (let s1 = upd_node fromNode (\<lambda>n. n\<lparr>next := next n @ [toNode]\<rparr>) s;
          s2 = upd_node fromNode (\<lambda>n. n\<lparr>next := next n @ next (nodeH s1 toNode)\<rparr>) s1
      in push_next toNode (prev (nodeH s2 fromNode)) s2)"

definition link_prev :: "Store \<Rightarrow> node_ref \<Rightarrow> node_ref \<Rightarrow> Store" where
  "link_prev s fromNode toNode =
     (let s1 = upd_node toNode (\<lambda>n. n\<lparr>prev := prev n @ [fromNode]\<rparr>) s;
          s2 = upd_node toNode (\<lambda>n. n\<lparr>prev := prev n @ prev (nodeH s1 fromNode)\<rparr>) s1
      in push_prev fromNode (next (nodeH s2 toNode)) s2)"

definition link_degrees :: "Store \<Rightarrow> node_ref \<Rightarrow> node_ref \<Rightarrow> Store" where
  "link_degrees s fromNode toNode =
     (let s1 = upd_node fromNode (\<lambda>n. n\<lparr>children := children n @ [toNode]\<rparr>) s;
          s2 = upd_node toNode (\<lambda>n. n\<lparr>dependsOn := dependsOn n @ [fromNode]\<rparr>) s1;
          s3 = upd_node toNode (\<lambda>n. n\<lparr>indegree := indegree n + 1\<rparr>) s2;
          s4 = (if dynamic (nodeH s3 fromNode)
                then upd_node toNode (\<lambda>n. n\<lparr>dynamicIndegree := dynamicIndegree n + 1\<rparr>) s3
                else s3)
      in upd_node fromNode (\<lambda>n. n\<lparr>outdegree := outdegree n + 1\<rparr>) s4)"

definition link_nodes :: "Store \<Rightarrow> dag_ref \<Rightarrow> node_ref \<Rightarrow> node_ref \<Rightarrow> string \<Rightarrow> Store" where
  "link_nodes s dag fromNode toNode to =
     (let s1 = link_next s fromNode toNode;
          s2 = link_prev s1 fromNode toNode;
          s3 = link_degrees s2 fromNode toNode;
          s4 = AddForwarder s3 fromNode to (Some DefaultForwarder);
          s5 = (if indegree (nodeH s4 toNode) > 1 \<or> outdegree (nodeH s4 fromNode) > 1
                then upd_dag dag (\<lambda>d. d\<lparr>hasBranch := True\<rparr>) s4
                else s4)
      in upd_dag dag (\<lambda>d. d\<lparr>hasEdge := True\<rparr>) s5)"

definition AddEdge :: "Store \<Rightarrow> dag_ref \<Rightarrow> string \<Rightarrow> string \<Rightarrow> Store \<times> error option" where
  "AddEdge s dag from to =
     (let (s1, fromNode) = lookup_or_add s dag from;
          (s2, toNode) = lookup_or_add s1 dag to
      in if inSlice s2 toNode (children (nodeH s2 fromNode))
            \<or> inSlice s2 fromNode (dependsOn (nodeH s2 toNode))
         then (s2, Some ErrDuplicateEdge)
         else if inSlice s2 fromNode (next (nodeH s2 toNode))
                 \<or> inSlice s2 toNode (prev (nodeH s2 fromNode))
         then (s2, Some ErrCyclic)
         else (link_nodes s2 dag fromNode toNode to, None))"

text \<open>\<^verbatim>\<open>Append\<close>: the loop over the entries of the appended graph. The duplicate test
  looks the id up in the appended graph's own map.\<close>

fun Append_loop :: "Store \<Rightarrow> dag_ref \<Rightarrow> dag_ref \<Rightarrow> (string \<times> node_ref) list \<Rightarrow> Store \<times> error option" where
  "Append_loop s dag appendDag [] = (s, None)"
| "Append_loop s dag appendDag ((nodeId, node) # rest) =
     (case map_of (nodes (dagH s appendDag)) nodeId of
        Some dup \<Rightarrow> (s, Some ErrDuplicateVertex)
      | None \<Rightarrow>
          Append_loop (upd_dag dag (\<lambda>d. d\<lparr>nodes := AList.update nodeId node (nodes d)\<rparr>) s)
            dag appendDag rest)"

definition Append :: "Store \<Rightarrow> dag_ref \<Rightarrow> dag_ref \<Rightarrow> Store \<times> error option" where
  "Append s dag appendDag = Append_loop s dag appendDag (nodes (dagH s appendDag))"

subsection \<open>dag.go: validation\<close>

text \<open>
  What a call does: it returns nil or an error, or it panics (the index expression
  \<^verbatim>\<open>endNodes[0]\<close> on an empty slice). \<^verbatim>\<open>Validate\<close> calls itself on the sub-graphs of
  its nodes, and nothing in the types keeps a graph from being nested in itself, so the
  recursion carries fuel: \<open>None\<close> means that the depth given was not enough.
\<close>

datatype outcome = Returns "error option" | Panics

type_synonym validator = "Store \<Rightarrow> dag_ref \<Rightarrow> (Store \<times> outcome) option"

text \<open>Lines 225 to 236 (and 255 to 266): the flags of a validated sub-graph flow into
  the graph that holds it.\<close>

definition merge_flags :: "dag_ref \<Rightarrow> dag_ref \<Rightarrow> Store \<Rightarrow> Store" where
  "merge_flags dag sub s =
     (let s1 = (if hasBranch (dagH s sub) then upd_dag dag (\<lambda>d. d\<lparr>hasBranch := True\<rparr>) s else s);
          s2 = (if hasEdge (dagH s1 sub) then upd_dag dag (\<lambda>d. d\<lparr>hasEdge := True\<rparr>) s1 else s1)
      in if \<not> executionFlow (dagH s2 sub)
         then upd_dag dag (\<lambda>d. d\<lparr>executionFlow := False\<rparr>) s2
         else s2)"

text \<open>Lines 211 to 237: the sub-graph of node \<open>b\<close>.\<close>

definition validate_sub :: "validator \<Rightarrow> dag_ref \<Rightarrow> node_ref \<Rightarrow> Store \<Rightarrow> (Store \<times> outcome) option" where
  "validate_sub rec dag b s =
     (case subDag (nodeH s b) of
        None \<Rightarrow> Some (s, Returns None)
      | Some sub \<Rightarrow>
          (let newId = (if dagId (dagH s dag) \<noteq> ''0''
                        then dagId (dagH s dag) @ ''_'' @ string_of_int (index (nodeH s b))
                        else string_of_int (index (nodeH s b)));
               s1 = upd_dag sub (\<lambda>d. d\<lparr>dagId := newId\<rparr>) s
           in case rec s1 sub of
                None \<Rightarrow> None
              | Some (s2, Panics) \<Rightarrow> Some (s2, Panics)
              | Some (s2, Returns (Some err)) \<Rightarrow> Some (s2, Returns (Some err))
              | Some (s2, Returns None) \<Rightarrow> Some (merge_flags dag sub s2, Returns None)))"

text \<open>Lines 241 to 267: the conditional sub-graphs of node \<open>b\<close>.\<close>

fun validate_conds :: "validator \<Rightarrow> dag_ref \<Rightarrow> node_ref \<Rightarrow> (string \<times> dag_ref) list \<Rightarrow> Store \<Rightarrow> (Store \<times> outcome) option" where
  "validate_conds rec dag b [] s = Some (s, Returns None)"
| "validate_conds rec dag b ((cond, cdag) # rest) s =
     (let newId = (if dagId (dagH s dag) \<noteq> ''0''
                   then dagId (dagH s dag) @ ''_'' @ string_of_int (index (nodeH s b)) @ ''_'' @ cond
                   else string_of_int (index (nodeH s b)) @ ''_'' @ cond);
          s1 = upd_dag cdag (\<lambda>d. d\<lparr>dagId := newId\<rparr>) s
      in case rec s1 cdag of
           None \<Rightarrow> None
         | Some (s2, Panics) \<Rightarrow> Some (s2, Panics)
         | Some (s2, Returns (Some err)) \<Rightarrow> Some (s2, Returns (Some err))
         | Some (s2, Returns None) \<Rightarrow> validate_conds rec dag b rest (merge_flags dag cdag s2))"

text \<open>Lines 202 to 268: the loop over the nodes, with its two locals
  \<^verbatim>\<open>initialNodeCount\<close> and \<^verbatim>\<open>endNodes\<close>. \<open>Inl\<close> is a return from inside the loop.\<close>

fun validate_nodes :: "validator \<Rightarrow> dag_ref \<Rightarrow> node_ref list \<Rightarrow> Store \<Rightarrow> int \<Rightarrow> node_ref list \<Rightarrow> (Store \<times> (outcome + int \<times> node_ref list)) option" where
  "validate_nodes rec dag [] s initialNodeCount endNodes =
     Some (s, Inr (initialNodeCount, endNodes))"
| "validate_nodes rec dag (b # bs) s initialNodeCount endNodes =
     (let s1 = upd_node b (\<lambda>n. n\<lparr>uniqueId := generateUniqueId n (dagId (dagH s dag))\<rparr>) s;
          (s2, cnt) = (if indegree (nodeH s1 b) = 0
                       then (upd_dag dag (\<lambda>d. d\<lparr>initialNode := Some b\<rparr>) s1, initialNodeCount + 1)
                       else (s1, initialNodeCount));
          ends = (if outdegree (nodeH s2 b) = 0 then endNodes @ [b] else endNodes)
      in case validate_sub rec dag b s2 of
           None \<Rightarrow> None
         | Some (s3, Panics) \<Rightarrow> Some (s3, Inl Panics)
         | Some (s3, Returns (Some err)) \<Rightarrow> Some (s3, Inl (Returns (Some err)))
         | Some (s3, Returns None) \<Rightarrow>
             (let s4 = (if dynamic (nodeH s3 b)
                           \<and> (case forwarder (nodeH s3 b) ''dynamic'' of
                                 Some (Some f) \<Rightarrow> True | _ \<Rightarrow> False)
                        then upd_dag dag (\<lambda>d. d\<lparr>executionFlow := False\<rparr>) s3
                        else s3)
              in case validate_conds rec dag b (conditionalDags (nodeH s4 b)) s4 of
                   None \<Rightarrow> None
                 | Some (s5, Panics) \<Rightarrow> Some (s5, Inl Panics)
                 | Some (s5, Returns (Some err)) \<Rightarrow> Some (s5, Inl (Returns (Some err)))
                 | Some (s5, Returns None) \<Rightarrow> validate_nodes rec dag bs s5 cnt ends))"

text \<open>Lines 279 to 287: one edge from every collected exit to the synthetic end node,
  its forwarder set back to nil.\<close>

fun connect_ends :: "dag_ref \<Rightarrow> string \<Rightarrow> node_ref list \<Rightarrow> Store \<Rightarrow> Store \<times> error option" where
  "connect_ends dag endNodeId [] s = (s, None)"
| "connect_ends dag endNodeId (b # bs) s =
     (case AddEdge s dag (Id (nodeH s b)) endNodeId of
        (s1, Some err) \<Rightarrow> (s1, Some err)
      | (s1, None) \<Rightarrow> connect_ends dag endNodeId bs (AddForwarder s1 b endNodeId None))"

primrec Validate :: "nat \<Rightarrow> Store \<Rightarrow> dag_ref \<Rightarrow> (Store \<times> outcome) option" where
  "Validate 0 s dag = None"
| "Validate (Suc fuel) s dag =
     (if validated (dagH s dag) then Some (s, Returns None)
      else if nodes (dagH s dag) = [] then Some (s, Returns (Some ErrNoVertex))
      else
        (case validate_nodes (Validate fuel) dag (map snd (nodes (dagH s dag))) s 0 [] of
           None \<Rightarrow> None
         | Some (s1, Inl out) \<Rightarrow> Some (s1, out)
         | Some (s1, Inr (initialNodeCount, endNodes)) \<Rightarrow>
             if initialNodeCount > 1
             then Some (s1, Returns (Some (ErrMultipleStart (dagId (dagH s1 dag)))))
             else if length endNodes > 1
             then
               (let endNodeId = ''end_'' @ dagId (dagH s1 dag);
                    (s2, endNode) = AddVertex s1 dag endNodeId [BlankOperation]
                in case connect_ends dag endNodeId endNodes s2 of
                     (s3, Some err) \<Rightarrow> Some (s3, Returns (Some err))
                   | (s3, None) \<Rightarrow>
                       Some (upd_dag dag (\<lambda>d. d\<lparr>validated := True\<rparr>)
                               (upd_dag dag (\<lambda>d. d\<lparr>endNode := Some endNode\<rparr>) s3),
                             Returns None))
             else
               (case endNodes of
                  [] \<Rightarrow> Some (s1, Panics)
                | e # rest \<Rightarrow>
                    Some (upd_dag dag (\<lambda>d. d\<lparr>validated := True\<rparr>)
                            (upd_dag dag (\<lambda>d. d\<lparr>endNode := Some e\<rparr>) s1),
                          Returns None))))"

subsection \<open>Stores to start from\<close>

text \<open>Go's zero values fill the cells no allocation has reached.\<close>

definition zero_node :: Node where
  "zero_node = \<lparr>Id = [], index = 0, uniqueId = [], subDag = None, conditionalDags = [],
     operations = [], dynamic = False, aggregator = None, foreach = None, condition = None,
     subAggregator = None, forwarder = Map.empty, task = None, parentDag = 0,
     indegree = 0, dynamicIndegree = 0, outdegree = 0,
     children = [], dependsOn = [], next = [], prev = []\<rparr>"

definition zero_dag :: Dag where
  "zero_dag = \<lparr>dagId = [], nodes = [], parentNode = None, initialNode = None,
     endNode = None, hasBranch = False, hasEdge = False, validated = False,
     executionFlow = False, dataForwarderCount = 0, nodeIndex = 0\<rparr>"

definition empty_store :: Store where
  "empty_store = \<lparr>nodeH = (\<lambda>p. zero_node), nodeN = 0, dagH = (\<lambda>d. zero_dag), dagN = 0\<rparr>"

section \<open>The scheduler: Flow.Run\<close>

text \<open>
  \<^verbatim>\<open>Flow\<close> holds the graph, the ready channel and the shared data set. The channel is
  buffered with the number of nodes the graph had when \<^verbatim>\<open>NewFlow\<close> ran; its elements
  are \<^verbatim>\<open>*Node\<close>, so nil-able. A Go channel can be closed, and \<^verbatim>\<open>range\<close> over a channel
  ends only then.
\<close>

record Chan =
  buf :: "node_ref option list"
  cap :: nat
  closed :: bool

record Flow =
  dag :: dag_ref
  readyChan :: Chan
  data :: DataSet

definition NewFlow :: "Store \<Rightarrow> dag_ref \<Rightarrow> Flow" where
  "NewFlow s d =
     \<lparr>dag = d,
      readyChan = \<lparr>buf = [], cap = length (nodes (dagH s d)), closed = False\<rparr>,
      data = Map.empty\<rparr>"

text \<open>
  \<^verbatim>\<open>Run\<close> starts one goroutine per node it receives, so a run is an interleaving of the
  caller's goroutine and of those. The state of a run is the store, the flow, the place
  the caller's goroutine is at, and the goroutines alive with their locals. A goroutine
  runs \<^verbatim>\<open>RunNode\<close>: the task first, then (deferred) \<^verbatim>\<open>RunNodeDone\<close> with the named
  result \<open>err\<close>. A nil \<^verbatim>\<open>task\<close> makes the call panic; the deferred call still runs, and the
  panic then ends the program.

  Each step below is one statement of the source taken as atomic; a task runs as one
  step. The source does not synchronise the decrements of \<^verbatim>\<open>indegree\<close>; the model takes
  them one at a time.
\<close>

datatype main_pc =
    Enqueue "node_ref list"  \<comment> \<open>in the first loop of Run, these nodes still to visit\<close>
  | Receive                  \<comment> \<open>at the receive of the second loop\<close>
  | Returned                 \<comment> \<open>past \<^verbatim>\<open>return flow\<close>\<close>

datatype go_pc =
    AtTask                            \<comment> \<open>about to call \<^verbatim>\<open>node.task.Run\<close>\<close>
  | AtDone "node_ref list"            \<comment> \<open>in the loop of RunNodeDone, these children left\<close>
  | AtSend node_ref "node_ref list"   \<comment> \<open>at \<^verbatim>\<open>flow.readyChan <- child\<close>\<close>

record goroutine =
  g_node :: node_ref
  g_err :: "error option"
  g_panicking :: bool
  g_pc :: go_pc

record RunState =
  store :: Store
  flow :: Flow
  main :: main_pc
  gos :: "goroutine list"
  executed :: "node_ref list"  \<comment> \<open>the nodes whose task has run, in order (a trace)\<close>
  crashed :: bool

definition chan_send :: "node_ref \<Rightarrow> Flow \<Rightarrow> Flow option" where
  "chan_send n f =
     (if length (buf (readyChan f)) < cap (readyChan f)
      then Some (f\<lparr>readyChan := (readyChan f)\<lparr>buf := buf (readyChan f) @ [Some n]\<rparr>\<rparr>)
      else None)"

text \<open>The call \<^verbatim>\<open>Run\<close>: its first loop visits the nodes of the graph.\<close>

definition Run_start :: "Store \<Rightarrow> Flow \<Rightarrow> RunState" where
  "Run_start s f =
     \<lparr>store = s, flow = f, main = Enqueue (map snd (nodes (dagH s (dag f)))),
      gos = [], executed = [], crashed = False\<rparr>"

text \<open>One step of the caller's goroutine; \<open>None\<close> when it is blocked (a send on a full
  channel, a receive on an empty channel that is not closed) or has returned.\<close>

definition main_step :: "RunState \<Rightarrow> RunState option" where
  "main_step st =
     (case main st of
        Enqueue [] \<Rightarrow> Some (st\<lparr>main := Receive\<rparr>)
      | Enqueue (node # rest) \<Rightarrow>
          if indegree (nodeH (store st) node) = 0
          then (case chan_send node (flow st) of
                  None \<Rightarrow> None
                | Some f \<Rightarrow> Some (st\<lparr>flow := f, main := Enqueue rest\<rparr>))
          else Some (st\<lparr>main := Enqueue rest\<rparr>)
      | Receive \<Rightarrow>
          (case buf (readyChan (flow st)) of
             [] \<Rightarrow> if closed (readyChan (flow st)) then Some (st\<lparr>main := Returned\<rparr>) else None
           | nodeTask # rest \<Rightarrow>
               Some (st\<lparr>flow := (flow st)\<lparr>readyChan := (readyChan (flow st))\<lparr>buf := rest\<rparr>\<rparr>,
                        gos := gos st @
                          (case nodeTask of
                             None \<Rightarrow> []
                           | Some n \<Rightarrow> [\<lparr>g_node = n, g_err = None, g_panicking = False,
                                          g_pc = AtTask\<rparr>])\<rparr>))
      | Returned \<Rightarrow> None)"

text \<open>
  One step of a goroutine: the goroutine afterwards (\<open>None\<close> when it has ended) and the
  state, or \<open>None\<close> when it is blocked. \<open>cascade\<close> tells the two versions of
  \<^verbatim>\<open>RunNodeDone\<close> apart: the one that walks \<^verbatim>\<open>node.children\<close>, and the one with an empty
  body. Neither reads its argument \<open>err\<close>, and the closure in \<^verbatim>\<open>Run\<close> tests the error
  it gets back and does nothing with it.
\<close>

definition go_step :: "bool \<Rightarrow> goroutine \<Rightarrow> RunState \<Rightarrow> (goroutine option \<times> RunState) option" where
  "go_step cascade g st =
     (case g_pc g of
        AtTask \<Rightarrow>
          (let todo = (if cascade then children (nodeH (store st) (g_node g)) else [])
           in case task (nodeH (store st) (g_node g)) of
                None \<Rightarrow> Some (Some (g\<lparr>g_panicking := True, g_pc := AtDone todo\<rparr>), st)
              | Some t \<Rightarrow>
                  (case t (data (flow st)) of
                     (d, err) \<Rightarrow>
                       Some (Some (g\<lparr>g_err := err, g_pc := AtDone todo\<rparr>),
                             st\<lparr>flow := (flow st)\<lparr>data := d\<rparr>,
                                executed := executed st @ [g_node g]\<rparr>)))
      | AtDone [] \<Rightarrow>
          if g_panicking g then Some (None, st\<lparr>crashed := True\<rparr>) else Some (None, st)
      | AtDone (child # rest) \<Rightarrow>
          (let s1 = upd_node child (\<lambda>n. n\<lparr>indegree := indegree n - 1\<rparr>) (store st)
           in if indegree (nodeH s1 child) = 0
              then Some (Some (g\<lparr>g_pc := AtSend child rest\<rparr>), st\<lparr>store := s1\<rparr>)
              else Some (Some (g\<lparr>g_pc := AtDone rest\<rparr>), st\<lparr>store := s1\<rparr>))
      | AtSend child rest \<Rightarrow>
          (case chan_send child (flow st) of
             None \<Rightarrow> None
           | Some f \<Rightarrow> Some (Some (g\<lparr>g_pc := AtDone rest\<rparr>), st\<lparr>flow := f\<rparr>)))"

definition set_goroutine :: "nat \<Rightarrow> goroutine option \<Rightarrow> goroutine list \<Rightarrow> goroutine list" where
  "set_goroutine i g gs = (case g of None \<Rightarrow> take i gs @ drop (Suc i) gs | Some g' \<Rightarrow> gs[i := g'])"

inductive step :: "bool \<Rightarrow> RunState \<Rightarrow> RunState \<Rightarrow> bool" for cascade where
  step_main: "\<not> crashed st \<Longrightarrow> main_step st = Some st' \<Longrightarrow> step cascade st st'"
| step_go: "\<not> crashed st \<Longrightarrow> i < length (gos st) \<Longrightarrow>
            go_step cascade (gos st ! i) st = Some (g', st') \<Longrightarrow>
            step cascade st (st'\<lparr>gos := set_goroutine i g' (gos st')\<rparr>)"

subsection \<open>Schedules\<close>

text \<open>A schedule names who moves next: the caller's goroutine (\<open>None\<close>) or the goroutine
  at a position of the list. Running a schedule is a function, so that a run can be
  computed.\<close>

definition do_step :: "bool \<Rightarrow> nat option \<Rightarrow> RunState \<Rightarrow> RunState option" where
  "do_step cascade who st =
     (if crashed st then None
      else case who of
        None \<Rightarrow> main_step st
      | Some i \<Rightarrow>
          if i < length (gos st)
          then (case go_step cascade (gos st ! i) st of
                  None \<Rightarrow> None
                | Some (g', st') \<Rightarrow> Some (st'\<lparr>gos := set_goroutine i g' (gos st')\<rparr>))
          else None)"

fun run_sched :: "bool \<Rightarrow> nat option list \<Rightarrow> RunState \<Rightarrow> RunState option" where
  "run_sched cascade [] st = Some st"
| "run_sched cascade (who # rest) st =
     (case do_step cascade who st of None \<Rightarrow> None | Some st' \<Rightarrow> run_sched cascade rest st')"

section \<open>Observations used in the statements\<close>

text \<open>Setting the flag \<^verbatim>\<open>validated\<close> of every graph of a store, and applying a change of
  the store inside a run.\<close>

definition mark_validated :: "bool \<Rightarrow> Store \<Rightarrow> Store" where
  "mark_validated b s = s\<lparr>dagH := (\<lambda>d. (dagH s d)\<lparr>validated := b\<rparr>)\<rparr>"

definition with_store :: "(Store \<Rightarrow> Store) \<Rightarrow> RunState \<Rightarrow> RunState" where
  "with_store f st = st\<lparr>store := f (store st)\<rparr>"





definition no_subgraphs :: "Store \<Rightarrow> dag_ref \<Rightarrow> bool" where
  "no_subgraphs s g =
     (\<forall>p\<in>set (map snd (nodes (dagH s g))).
        subDag (nodeH s p) = None \<and> conditionalDags (nodeH s p) = [])"

text \<open>
  What the construction keeps true of a graph: the keys of its map are distinct, each
  entry points to an allocated node that carries the key as its \<^verbatim>\<open>Id\<close>, whose
  \<^verbatim>\<open>outdegree\<close> counts its \<^verbatim>\<open>children\<close>, and whose cached ancestors are allocated
  nodes named by keys of the map.
\<close>

definition wf_dag :: "Store \<Rightarrow> dag_ref \<Rightarrow> bool" where
  "wf_dag s g =
     (distinct (map fst (nodes (dagH s g)))
      \<and> (\<forall>(k, p)\<in>set (nodes (dagH s g)).
            p < nodeN s \<and> Id (nodeH s p) = k
            \<and> outdegree (nodeH s p) = int (length (children (nodeH s p)))
            \<and> (\<forall>q\<in>set (prev (nodeH s p)).
                  q < nodeN s \<and> Id (nodeH s q) \<in> fst ` set (nodes (dagH s g)))))"

text \<open>The graphs that \<^verbatim>\<open>NewDag\<close>, \<^verbatim>\<open>AddVertex\<close> and \<^verbatim>\<open>AddEdge\<close> build, whatever
  \<^verbatim>\<open>AddEdge\<close> returns.\<close>

inductive built :: "dag_ref \<Rightarrow> Store \<Rightarrow> bool" for g where
  built_NewDag: "NewDag s0 = (s, g) \<Longrightarrow> built g s"
| built_AddVertex: "built g s \<Longrightarrow> built g (fst (AddVertex s g k ops))"
| built_AddEdge: "built g s \<Longrightarrow> built g (fst (AddEdge s g from to))"

text \<open>The three properties together: what a graph is like when it has been built and not
  yet validated.\<close>

definition plain_dag :: "Store \<Rightarrow> dag_ref \<Rightarrow> bool" where
  "plain_dag s g = (wf_dag s g \<and> no_subgraphs s g \<and> \<not> validated (dagH s g))"

text \<open>Nothing clears the flag \<^verbatim>\<open>validated\<close> of an allocated graph: \<open>keeps_validated\<close>
  relates a store to a later one, and \<open>later\<close> is what the calls of the package can make
  of a store.\<close>

definition keeps_validated :: "Store \<Rightarrow> Store \<Rightarrow> bool" where
  "keeps_validated s s' =
     (dagN s \<le> dagN s' \<and> (\<forall>g<dagN s. validated (dagH s g) \<longrightarrow> validated (dagH s' g)))"

inductive later :: "Store \<Rightarrow> Store \<Rightarrow> bool" for s where
  later_now: "later s s"
| later_NewDag: "later s s1 \<Longrightarrow> later s (fst (NewDag s1))"
| later_AddVertex: "later s s1 \<Longrightarrow> later s (fst (AddVertex s1 d k ops))"
| later_AddEdge: "later s s1 \<Longrightarrow> later s (fst (AddEdge s1 d from to))"
| later_AddForwarder: "later s s1 \<Longrightarrow> later s (AddForwarder s1 n c fw)"
| later_Append: "later s s1 \<Longrightarrow> later s (fst (Append s1 d a))"
| later_AddForEach: "later s s1 \<Longrightarrow> later s (AddForEach s1 n fe)"
| later_AddCondition: "later s s1 \<Longrightarrow> later s (AddCondition s1 n cnd)"
| later_AddSubDag: "later s s1 \<Longrightarrow> AddSubDag fuel s1 n d = Some (s2, err) \<Longrightarrow> later s s2"
| later_AddForEachDag: "later s s1 \<Longrightarrow> later s (fst (AddForEachDag s1 n d))"
| later_AddConditionalDag: "later s s1 \<Longrightarrow> later s (AddConditionalDag s1 n c d)"
| later_Validate: "later s s1 \<Longrightarrow> Validate fuel s1 d = Some (s2, out) \<Longrightarrow> later s s2"

text \<open>Two stores that differ at most in what the loop of \<^verbatim>\<open>Validate\<close> writes when no
  node has a sub-graph: the \<^verbatim>\<open>uniqueId\<close> of nodes, and \<^verbatim>\<open>initialNode\<close> and
  \<^verbatim>\<open>executionFlow\<close> of graphs.\<close>

definition only_marked :: "Store \<Rightarrow> Store \<Rightarrow> bool" where
  "only_marked s s' =
     (nodeN s' = nodeN s \<and> dagN s' = dagN s
      \<and> (\<forall>p. (nodeH s' p)\<lparr>uniqueId := []\<rparr> = (nodeH s p)\<lparr>uniqueId := []\<rparr>)
      \<and> (\<forall>d. (dagH s' d)\<lparr>initialNode := None, executionFlow := False\<rparr>
              = (dagH s d)\<lparr>initialNode := None, executionFlow := False\<rparr>))"

text \<open>One round of that loop on a node without sub-graphs (lines 203 to 210 and 238 to
  240), and one round of the loop that joins the exits to the end node (lines 281 to
  286, the call of \<^verbatim>\<open>AddEdge\<close> having passed its checks).\<close>

definition mark_node :: "dag_ref \<Rightarrow> node_ref \<Rightarrow> Store \<Rightarrow> Store" where
  "mark_node g b s =
     (let s1 = upd_node b (\<lambda>n. n\<lparr>uniqueId := generateUniqueId n (dagId (dagH s g))\<rparr>) s;
          s2 = (if indegree (nodeH s1 b) = 0
                then upd_dag g (\<lambda>d. d\<lparr>initialNode := Some b\<rparr>) s1 else s1)
      in if dynamic (nodeH s2 b)
            \<and> (case forwarder (nodeH s2 b) ''dynamic'' of Some (Some f) \<Rightarrow> True | _ \<Rightarrow> False)
         then upd_dag g (\<lambda>d. d\<lparr>executionFlow := False\<rparr>) s2
         else s2)"


section \<open>Example graphs\<close>

text \<open>All are built by the construction API from an empty store; graph 0 is the first
  \<^verbatim>\<open>NewDag()\<close>, node addresses follow the order of creation.\<close>

definition one_vertex :: Store where
  "one_vertex = fst (AddVertex (fst (NewDag empty_store)) 0 ''a'' [])"

definition edge_ab :: Store where
  "edge_ab = fst (AddEdge (fst (NewDag empty_store)) 0 ''a'' ''b'')"

definition self_loop :: Store where
  "self_loop = fst (AddEdge (fst (NewDag empty_store)) 0 ''a'' ''a'')"

text \<open>Two graphs; graph 1 holds the edge from a to b, graph 0 is empty.\<close>

definition two_graphs :: Store where
  "two_graphs = fst (AddEdge (fst (NewDag (fst (NewDag empty_store)))) 1 ''a'' ''b'')"



definition writing_task :: Task where
  "writing_task d = (d(''k'' \<mapsto> ''v''), None)"

definition writing_graph :: Store where
  "writing_graph = upd_node 0 (\<lambda>n. n\<lparr>task := Some writing_task\<rparr>) one_vertex"



definition revalidated :: Store where
  "revalidated = fst (AddVertex (fst (the (Validate 1 one_vertex 0))) 0 ''b'' [])"

text \<open>The graph of one vertex, attached to its own vertex as a conditional sub-graph.\<close>

definition self_nested :: Store where
  "self_nested = AddConditionalDag one_vertex 0 ''c'' 0"



definition writing_end :: RunState where
  "writing_end =
     \<lparr>store = writing_graph,
      flow = \<lparr>dag = 0, readyChan = \<lparr>buf = [], cap = 1, closed = False\<rparr>,
              data = [''k'' \<mapsto> ''v'']\<rparr>,
      main = Receive, gos = [], executed = [0], crashed = False\<rparr>"

section \<open>Evaluation\<close>

lemmas flow_eval =
  AddEdge_def NewDag_def empty_store_def lookup_or_add_def AddVertex_def upd_dag_def
  upd_node_def Let_def link_nodes_def link_next_def link_prev_def link_degrees_def
  AddForwarder_def validate_sub_def zero_node_def
  zero_dag_def merge_flags_def generateUniqueId_def Append_def

lemmas run_eval =
  do_step_def main_step_def go_step_def chan_send_def set_goroutine_def Run_start_def
  NewFlow_def

text \<open>With these congruence rules the simplifier evaluates the bound expression of a
  \<open>let\<close> or the scrutinee of a \<open>case\<close> before it looks at the body.\<close>

lemmas weak_congs =
  let_weak_cong prod.case_cong_weak option.case_cong_weak sum.case_cong_weak
  list.case_cong_weak outcome.case_cong_weak

lemma one_vertex_eval:
  "nodeH one_vertex 0 = zero_node\<lparr>Id := ''a'', index := 1\<rparr>"
  "nodes (dagH one_vertex 0) = [(''a'', 0)]"
  "validated (dagH one_vertex 0) = False"
  unfolding one_vertex_def by (simp_all add: flow_eval cong: weak_congs)


lemma writing_graph_eval:
  "nodeH writing_graph 0 = zero_node\<lparr>Id := ''a'', index := 1, task := Some writing_task\<rparr>"
  "nodes (dagH writing_graph 0) = [(''a'', 0)]"
  "validated (dagH writing_graph 0) = False"
  unfolding writing_graph_def by (simp_all add: upd_node_def one_vertex_eval)



section \<open>Construction\<close>

text \<open>
  C10. For every graph \<open>g\<close> and every argument graph \<open>d\<close>, \<^verbatim>\<open>g.Append(d)\<close> returns the
  duplicate-vertex error whenever \<open>d\<close> holds at least one node, and then copies nothing
  into \<open>g\<close> (the store is the one before the call); it returns nil exactly when \<open>d\<close> has
  no node.
\<close>

theorem Append_duplicate:
  "(nodes (dagH s d) \<noteq> [] \<longrightarrow> Append s g d = (s, Some ErrDuplicateVertex))
   \<and> (snd (Append s g d) = None \<longleftrightarrow> nodes (dagH s d) = [])"
  by (cases "nodes (dagH s d)") (auto simp: Append_def)

theorem Append_duplicate_witness:
  "nodes (dagH two_graphs 1) \<noteq> []
   \<and> Append two_graphs 0 1 = (two_graphs, Some ErrDuplicateVertex)
   \<and> nodes (dagH two_graphs 0) = []"
proof -
  have n: "nodes (dagH two_graphs 1) = [(''a'', 0), (''b'', 1)]"
    unfolding two_graphs_def by (simp add: flow_eval cong: weak_congs)
  have m: "nodes (dagH two_graphs 0) = []"
    unfolding two_graphs_def by (simp add: flow_eval cong: weak_congs)
  from n have ne: "nodes (dagH two_graphs 1) \<noteq> []" by simp
  with Append_duplicate [of two_graphs 1 0] m show ?thesis by simp
qed

text \<open>
  C7, as the code has it. \<^verbatim>\<open>AddVertex\<close> has no error result. Whether or not \<open>id\<close> is
  already a vertex, it allocates a fresh node (next index, the given operations, no
  edges) and makes the graph's entry for \<open>id\<close> point to it; every node allocated before,
  the one formerly stored under \<open>id\<close> among them, stays as it was in memory, and the
  entries of the other ids are kept.
\<close>

theorem AddVertex_replaces:
  "AddVertex s g ident ops = (s', p) \<Longrightarrow>
     p = nodeN s
     \<and> map_of (nodes (dagH s' g)) ident = Some p
     \<and> Id (nodeH s' p) = ident \<and> operations (nodeH s' p) = ops
     \<and> index (nodeH s' p) = nodeIndex (dagH s g) + 1
     \<and> nodeIndex (dagH s' g) = nodeIndex (dagH s g) + 1
     \<and> indegree (nodeH s' p) = 0 \<and> outdegree (nodeH s' p) = 0
     \<and> children (nodeH s' p) = [] \<and> dependsOn (nodeH s' p) = []
     \<and> next (nodeH s' p) = [] \<and> prev (nodeH s' p) = []
     \<and> (\<forall>q. q \<noteq> p \<longrightarrow> nodeH s' q = nodeH s q)
     \<and> (\<forall>k. k \<noteq> ident \<longrightarrow> map_of (nodes (dagH s' g)) k = map_of (nodes (dagH s g)) k)"
  by (auto simp: AddVertex_def upd_dag_def Let_def update_conv')

theorem AddVertex_replaces_witness:
  "snd (AddVertex edge_ab 0 ''a'' []) = nodeN edge_ab
   \<and> map_of (nodes (dagH (fst (AddVertex edge_ab 0 ''a'' [])) 0)) ''a'' = Some (nodeN edge_ab)
   \<and> nodeH (fst (AddVertex edge_ab 0 ''a'' [])) 0 = nodeH edge_ab 0
   \<and> map_of (nodes (dagH (fst (AddVertex edge_ab 0 ''a'' [])) 0)) ''b''
       = map_of (nodes (dagH edge_ab 0)) ''b''"
proof -
  have n: "nodeN edge_ab = 2"
    unfolding edge_ab_def by (simp add: flow_eval cong: weak_congs)
  have "AddVertex edge_ab 0 ''a'' [] = (fst (AddVertex edge_ab 0 ''a'' []), snd (AddVertex edge_ab 0 ''a'' []))"
    by simp
  from AddVertex_replaces [OF this] n show ?thesis by simp
qed

text \<open>The claim as written fails: after the edge from a to b, a second
  \<^verbatim>\<open>AddVertex("a", ...)\<close> is not rejected, and the node stored under a is no longer the
  one with the child b but a new one without edges.\<close>

theorem AddVertex_overwrites:
  "map_of (nodes (dagH edge_ab 0)) ''a'' = Some 0 \<and> children (nodeH edge_ab 0) = [1]
   \<and> outdegree (nodeH edge_ab 0) = 1
   \<and> map_of (nodes (dagH (fst (AddVertex edge_ab 0 ''a'' [])) 0)) ''a'' = Some 2
   \<and> children (nodeH (fst (AddVertex edge_ab 0 ''a'' [])) 2) = []
   \<and> outdegree (nodeH (fst (AddVertex edge_ab 0 ''a'' [])) 2) = 0"
  unfolding edge_ab_def by (simp add: flow_eval cong: weak_congs)

text \<open>
  C2, at a failing input. On a new graph, \<^verbatim>\<open>AddEdge("a", "a")\<close> closes a cycle of length
  one and returns nil: both checks look for a in slices that are still empty. The node
  becomes its own child and its own dependency, with indegree and outdegree 1.
\<close>

theorem AddEdge_self_loop_accepted:
  "snd (AddEdge (fst (NewDag empty_store)) 0 ''a'' ''a'') = None
   \<and> nodes (dagH self_loop 0) = [(''a'', 0)]
   \<and> children (nodeH self_loop 0) = [0] \<and> dependsOn (nodeH self_loop 0) = [0]
   \<and> indegree (nodeH self_loop 0) = 1 \<and> outdegree (nodeH self_loop 0) = 1"
  unfolding self_loop_def by (simp add: flow_eval cong: weak_congs)

section \<open>The store after a call\<close>

text \<open>Selectors of the store after each operation, field by field. The checks of
  \<^verbatim>\<open>AddEdge\<close> and the loops of \<^verbatim>\<open>Validate\<close> are reasoned about through these.\<close>

lemma upd_node_sel [simp]:
  "nodeH (upd_node q f s) p = (if p = q then f (nodeH s q) else nodeH s p)"
  "nodeN (upd_node q f s) = nodeN s"
  "dagH (upd_node q f s) = dagH s"
  "dagN (upd_node q f s) = dagN s"
  by (simp_all add: upd_node_def)

lemma upd_dag_sel [simp]:
  "dagH (upd_dag d f s) e = (if e = d then f (dagH s d) else dagH s e)"
  "dagN (upd_dag d f s) = dagN s"
  "nodeH (upd_dag d f s) = nodeH s"
  "nodeN (upd_dag d f s) = nodeN s"
  by (simp_all add: upd_dag_def)

text \<open>What the two loops leave alone.\<close>

lemma push_next_frame:
  "nodeN (push_next t xs s) = nodeN s \<and> dagH (push_next t xs s) = dagH s
   \<and> dagN (push_next t xs s) = dagN s
   \<and> (nodeH (push_next t xs s) p)\<lparr>next := []\<rparr> = (nodeH s p)\<lparr>next := []\<rparr>
   \<and> (p \<notin> set xs \<longrightarrow> nodeH (push_next t xs s) p = nodeH s p)"
  by (induction xs arbitrary: s) (auto simp: Let_def)

lemma push_prev_frame:
  "nodeN (push_prev f xs s) = nodeN s \<and> dagH (push_prev f xs s) = dagH s
   \<and> dagN (push_prev f xs s) = dagN s
   \<and> (nodeH (push_prev f xs s) p)\<lparr>prev := []\<rparr> = (nodeH s p)\<lparr>prev := []\<rparr>
   \<and> (p \<notin> set xs \<longrightarrow> nodeH (push_prev f xs s) p = nodeH s p)"
  by (induction xs arbitrary: s) (auto simp: Let_def)

lemma next_erased:
  assumes "n'\<lparr>next := []\<rparr> = n\<lparr>next := []\<rparr>"
  shows "Id n' = Id n" "index n' = index n" "uniqueId n' = uniqueId n" "subDag n' = subDag n"
    "conditionalDags n' = conditionalDags n" "operations n' = operations n"
    "dynamic n' = dynamic n" "forwarder n' = forwarder n" "task n' = task n"
    "parentDag n' = parentDag n" "indegree n' = indegree n"
    "dynamicIndegree n' = dynamicIndegree n" "outdegree n' = outdegree n"
    "children n' = children n" "dependsOn n' = dependsOn n" "prev n' = prev n"
  using arg_cong [OF assms, of Id] arg_cong [OF assms, of index] arg_cong [OF assms, of uniqueId]
    arg_cong [OF assms, of subDag] arg_cong [OF assms, of conditionalDags]
    arg_cong [OF assms, of operations] arg_cong [OF assms, of dynamic]
    arg_cong [OF assms, of forwarder] arg_cong [OF assms, of task]
    arg_cong [OF assms, of parentDag] arg_cong [OF assms, of indegree]
    arg_cong [OF assms, of dynamicIndegree] arg_cong [OF assms, of outdegree]
    arg_cong [OF assms, of children] arg_cong [OF assms, of dependsOn] arg_cong [OF assms, of prev]
  by simp_all

lemma prev_erased:
  assumes "n'\<lparr>prev := []\<rparr> = n\<lparr>prev := []\<rparr>"
  shows "Id n' = Id n" "index n' = index n" "uniqueId n' = uniqueId n" "subDag n' = subDag n"
    "conditionalDags n' = conditionalDags n" "operations n' = operations n"
    "dynamic n' = dynamic n" "forwarder n' = forwarder n" "task n' = task n"
    "parentDag n' = parentDag n" "indegree n' = indegree n"
    "dynamicIndegree n' = dynamicIndegree n" "outdegree n' = outdegree n"
    "children n' = children n" "dependsOn n' = dependsOn n" "next n' = next n"
  using arg_cong [OF assms, of Id] arg_cong [OF assms, of index] arg_cong [OF assms, of uniqueId]
    arg_cong [OF assms, of subDag] arg_cong [OF assms, of conditionalDags]
    arg_cong [OF assms, of operations] arg_cong [OF assms, of dynamic]
    arg_cong [OF assms, of forwarder] arg_cong [OF assms, of task]
    arg_cong [OF assms, of parentDag] arg_cong [OF assms, of indegree]
    arg_cong [OF assms, of dynamicIndegree] arg_cong [OF assms, of outdegree]
    arg_cong [OF assms, of children] arg_cong [OF assms, of dependsOn] arg_cong [OF assms, of "next"]
  by simp_all

lemmas push_next_sel [simp] =
  next_erased [OF push_next_frame [THEN conjunct2, THEN conjunct2, THEN conjunct2, THEN conjunct1]]

lemmas push_prev_sel [simp] =
  prev_erased [OF push_prev_frame [THEN conjunct2, THEN conjunct2, THEN conjunct2, THEN conjunct1]]

lemma push_store [simp]:
  "nodeN (push_next t xs s) = nodeN s" "dagH (push_next t xs s) = dagH s"
  "dagN (push_next t xs s) = dagN s"
  "nodeN (push_prev f xs s) = nodeN s" "dagH (push_prev f xs s) = dagH s"
  "dagN (push_prev f xs s) = dagN s"
  using push_next_frame [of t xs s] push_prev_frame [of f xs s] by simp_all


lemma push_prev_other: "p \<notin> set xs \<Longrightarrow> nodeH (push_prev f xs s) p = nodeH s p"
  using push_prev_frame [of f xs s p] by simp

lemma AddForwarder_sel [simp]:
  "nodeN (AddForwarder s n c fw) = nodeN s" "dagN (AddForwarder s n c fw) = dagN s"
  "nodeH (AddForwarder s n c fw) p
     = (if p = n then (nodeH s n)\<lparr>forwarder := (forwarder (nodeH s n))(c \<mapsto> fw)\<rparr> else nodeH s p)"
  "nodes (dagH (AddForwarder s n c fw) d) = nodes (dagH s d)"
  "dagId (dagH (AddForwarder s n c fw) d) = dagId (dagH s d)"
  "validated (dagH (AddForwarder s n c fw) d) = validated (dagH s d)"
  "endNode (dagH (AddForwarder s n c fw) d) = endNode (dagH s d)"
  "initialNode (dagH (AddForwarder s n c fw) d) = initialNode (dagH s d)"
  "nodeIndex (dagH (AddForwarder s n c fw) d) = nodeIndex (dagH s d)"
  "parentNode (dagH (AddForwarder s n c fw) d) = parentNode (dagH s d)"
  by (simp_all add: AddForwarder_def Let_def)

lemma link_next_sel [simp]:
  "nodeN (link_next s f t) = nodeN s" "dagN (link_next s f t) = dagN s"
  "dagH (link_next s f t) = dagH s"
  "Id (nodeH (link_next s f t) p) = Id (nodeH s p)"
  "index (nodeH (link_next s f t) p) = index (nodeH s p)"
  "uniqueId (nodeH (link_next s f t) p) = uniqueId (nodeH s p)"
  "subDag (nodeH (link_next s f t) p) = subDag (nodeH s p)"
  "conditionalDags (nodeH (link_next s f t) p) = conditionalDags (nodeH s p)"
  "operations (nodeH (link_next s f t) p) = operations (nodeH s p)"
  "dynamic (nodeH (link_next s f t) p) = dynamic (nodeH s p)"
  "forwarder (nodeH (link_next s f t) p) = forwarder (nodeH s p)"
  "task (nodeH (link_next s f t) p) = task (nodeH s p)"
  "parentDag (nodeH (link_next s f t) p) = parentDag (nodeH s p)"
  "indegree (nodeH (link_next s f t) p) = indegree (nodeH s p)"
  "dynamicIndegree (nodeH (link_next s f t) p) = dynamicIndegree (nodeH s p)"
  "outdegree (nodeH (link_next s f t) p) = outdegree (nodeH s p)"
  "children (nodeH (link_next s f t) p) = children (nodeH s p)"
  "dependsOn (nodeH (link_next s f t) p) = dependsOn (nodeH s p)"
  "prev (nodeH (link_next s f t) p) = prev (nodeH s p)"
  by (simp_all add: link_next_def Let_def)

lemma link_prev_sel [simp]:
  "nodeN (link_prev s f t) = nodeN s" "dagN (link_prev s f t) = dagN s"
  "dagH (link_prev s f t) = dagH s"
  "Id (nodeH (link_prev s f t) p) = Id (nodeH s p)"
  "index (nodeH (link_prev s f t) p) = index (nodeH s p)"
  "uniqueId (nodeH (link_prev s f t) p) = uniqueId (nodeH s p)"
  "subDag (nodeH (link_prev s f t) p) = subDag (nodeH s p)"
  "conditionalDags (nodeH (link_prev s f t) p) = conditionalDags (nodeH s p)"
  "operations (nodeH (link_prev s f t) p) = operations (nodeH s p)"
  "dynamic (nodeH (link_prev s f t) p) = dynamic (nodeH s p)"
  "forwarder (nodeH (link_prev s f t) p) = forwarder (nodeH s p)"
  "task (nodeH (link_prev s f t) p) = task (nodeH s p)"
  "parentDag (nodeH (link_prev s f t) p) = parentDag (nodeH s p)"
  "indegree (nodeH (link_prev s f t) p) = indegree (nodeH s p)"
  "dynamicIndegree (nodeH (link_prev s f t) p) = dynamicIndegree (nodeH s p)"
  "outdegree (nodeH (link_prev s f t) p) = outdegree (nodeH s p)"
  "children (nodeH (link_prev s f t) p) = children (nodeH s p)"
  "dependsOn (nodeH (link_prev s f t) p) = dependsOn (nodeH s p)"
  "next (nodeH (link_prev s f t) p) = next (nodeH s p)"
  by (simp_all add: link_prev_def Let_def)

lemma link_degrees_sel [simp]:
  "nodeN (link_degrees s f t) = nodeN s" "dagN (link_degrees s f t) = dagN s"
  "dagH (link_degrees s f t) = dagH s"
  "Id (nodeH (link_degrees s f t) p) = Id (nodeH s p)"
  "index (nodeH (link_degrees s f t) p) = index (nodeH s p)"
  "uniqueId (nodeH (link_degrees s f t) p) = uniqueId (nodeH s p)"
  "subDag (nodeH (link_degrees s f t) p) = subDag (nodeH s p)"
  "conditionalDags (nodeH (link_degrees s f t) p) = conditionalDags (nodeH s p)"
  "operations (nodeH (link_degrees s f t) p) = operations (nodeH s p)"
  "dynamic (nodeH (link_degrees s f t) p) = dynamic (nodeH s p)"
  "forwarder (nodeH (link_degrees s f t) p) = forwarder (nodeH s p)"
  "task (nodeH (link_degrees s f t) p) = task (nodeH s p)"
  "parentDag (nodeH (link_degrees s f t) p) = parentDag (nodeH s p)"
  "next (nodeH (link_degrees s f t) p) = next (nodeH s p)"
  "prev (nodeH (link_degrees s f t) p) = prev (nodeH s p)"
  "outdegree (nodeH (link_degrees s f t) p) = outdegree (nodeH s p) + (if p = f then 1 else 0)"
  "indegree (nodeH (link_degrees s f t) p) = indegree (nodeH s p) + (if p = t then 1 else 0)"
  "children (nodeH (link_degrees s f t) p) = children (nodeH s p) @ (if p = f then [t] else [])"
  "dependsOn (nodeH (link_degrees s f t) p) = dependsOn (nodeH s p) @ (if p = t then [f] else [])"
  by (simp_all add: link_degrees_def Let_def)

lemma link_nodes_store:
  "nodeN (link_nodes s g f t to) = nodeN s" "dagN (link_nodes s g f t to) = dagN s"
  "nodes (dagH (link_nodes s g f t to) d) = nodes (dagH s d)"
  "dagId (dagH (link_nodes s g f t to) d) = dagId (dagH s d)"
  "validated (dagH (link_nodes s g f t to) d) = validated (dagH s d)"
  "endNode (dagH (link_nodes s g f t to) d) = endNode (dagH s d)"
  "initialNode (dagH (link_nodes s g f t to) d) = initialNode (dagH s d)"
  "nodeIndex (dagH (link_nodes s g f t to) d) = nodeIndex (dagH s d)"
  "parentNode (dagH (link_nodes s g f t to) d) = parentNode (dagH s d)"
  by (simp_all add: link_nodes_def Let_def)

lemma link_nodes_fixed:
  "Id (nodeH (link_nodes s g f t to) p) = Id (nodeH s p)"
  "index (nodeH (link_nodes s g f t to) p) = index (nodeH s p)"
  "uniqueId (nodeH (link_nodes s g f t to) p) = uniqueId (nodeH s p)"
  "subDag (nodeH (link_nodes s g f t to) p) = subDag (nodeH s p)"
  "conditionalDags (nodeH (link_nodes s g f t to) p) = conditionalDags (nodeH s p)"
  "operations (nodeH (link_nodes s g f t to) p) = operations (nodeH s p)"
  "dynamic (nodeH (link_nodes s g f t to) p) = dynamic (nodeH s p)"
  "task (nodeH (link_nodes s g f t to) p) = task (nodeH s p)"
  "parentDag (nodeH (link_nodes s g f t to) p) = parentDag (nodeH s p)"
  by (simp_all add: link_nodes_def Let_def)

lemma link_nodes_degrees:
  "outdegree (nodeH (link_nodes s g f t to) p) = outdegree (nodeH s p) + (if p = f then 1 else 0)"
  "indegree (nodeH (link_nodes s g f t to) p) = indegree (nodeH s p) + (if p = t then 1 else 0)"
  "children (nodeH (link_nodes s g f t to) p) = children (nodeH s p) @ (if p = f then [t] else [])"
  "dependsOn (nodeH (link_nodes s g f t to) p) = dependsOn (nodeH s p) @ (if p = t then [f] else [])"
  "forwarder (nodeH (link_nodes s g f t to) p)
     = (if p = f then (forwarder (nodeH s f))(to \<mapsto> Some DefaultForwarder) else forwarder (nodeH s p))"
  by (simp_all add: link_nodes_def Let_def)




text \<open>The store after the vertex \<open>k\<close> has been added.\<close>

lemma AddVertex_sel:
  "snd (AddVertex s g k ops) = nodeN s"
  "nodeN (fst (AddVertex s g k ops)) = Suc (nodeN s)"
  "dagN (fst (AddVertex s g k ops)) = dagN s"
  "p \<noteq> nodeN s \<Longrightarrow> nodeH (fst (AddVertex s g k ops)) p = nodeH s p"
  "nodeH (fst (AddVertex s g k ops)) (nodeN s)
     = zero_node\<lparr>Id := k, index := nodeIndex (dagH s g) + 1, operations := ops, parentDag := g\<rparr>"
  "nodes (dagH (fst (AddVertex s g k ops)) g) = AList.update k (nodeN s) (nodes (dagH s g))"
  "dagId (dagH (fst (AddVertex s g k ops)) d) = dagId (dagH s d)"
  "validated (dagH (fst (AddVertex s g k ops)) d) = validated (dagH s d)"
  "initialNode (dagH (fst (AddVertex s g k ops)) d) = initialNode (dagH s d)"
  "endNode (dagH (fst (AddVertex s g k ops)) d) = endNode (dagH s d)"
  "d \<noteq> g \<Longrightarrow> dagH (fst (AddVertex s g k ops)) d = dagH s d"
  by (simp_all add: AddVertex_def Let_def zero_node_def)




subsection \<open>What the construction keeps true\<close>


lemma update_entry:
  "distinct (map fst al) \<Longrightarrow> (k', p) \<in> set (AList.update k v al) \<Longrightarrow>
     (k' = k \<and> p = v) \<or> ((k', p) \<in> set al \<and> k' \<noteq> k)"
  by (induction al) (auto split: if_splits simp: image_iff)

lemma update_keeps:
  "(k', p) \<in> set al \<Longrightarrow> k' \<noteq> k \<Longrightarrow> (k', p) \<in> set (AList.update k v al)"
  by (induction al) auto

lemma update_has: "(k, v) \<in> set (AList.update k v al)"
  by (induction al) auto



lemma wf_dag_entry:
  assumes "wf_dag s g" "(k, p) \<in> set (nodes (dagH s g))"
  shows "p < nodeN s" "Id (nodeH s p) = k" "map_of (nodes (dagH s g)) k = Some p"
    "outdegree (nodeH s p) = int (length (children (nodeH s p)))"
    "\<forall>q\<in>set (prev (nodeH s p)). q < nodeN s \<and> Id (nodeH s q) \<in> fst ` set (nodes (dagH s g))"
  using assms by (auto simp: wf_dag_def)


lemma wf_dag_AddVertex:
  assumes "wf_dag s g"
  shows "wf_dag (fst (AddVertex s g k ops)) g"
proof -
  let ?s = "fst (AddVertex s g k ops)"
  have d: "distinct (map fst (nodes (dagH ?s g)))"
    using assms by (simp add: AddVertex_sel wf_dag_def distinct_update)
  have keys: "fst ` set (nodes (dagH s g)) \<subseteq> fst ` set (nodes (dagH ?s g))"
    by (auto simp: AddVertex_sel dom_update)
  have "p < nodeN ?s \<and> Id (nodeH ?s p) = k'
        \<and> outdegree (nodeH ?s p) = int (length (children (nodeH ?s p)))
        \<and> (\<forall>q\<in>set (prev (nodeH ?s p)). q < nodeN ?s \<and> Id (nodeH ?s q) \<in> fst ` set (nodes (dagH ?s g)))"
    if "(k', p) \<in> set (nodes (dagH ?s g))" for k' p
  proof -
    from that have "(k' = k \<and> p = nodeN s) \<or> ((k', p) \<in> set (nodes (dagH s g)) \<and> k' \<noteq> k)"
      using assms by (simp add: AddVertex_sel wf_dag_def update_entry)
    then show ?thesis
    proof
      assume "k' = k \<and> p = nodeN s"
      then show ?thesis by (simp add: AddVertex_sel zero_node_def)
    next
      assume "(k', p) \<in> set (nodes (dagH s g)) \<and> k' \<noteq> k"
      then have e: "(k', p) \<in> set (nodes (dagH s g))" by simp
      note w = wf_dag_entry [OF assms e]
      from w(1) have pn: "p \<noteq> nodeN s" by simp
      have "\<forall>q\<in>set (prev (nodeH s p)). q < nodeN ?s \<and> Id (nodeH ?s q) \<in> fst ` set (nodes (dagH ?s g))"
      proof
        fix q assume q: "q \<in> set (prev (nodeH s p))"
        with w(5) have "q < nodeN s" "Id (nodeH s q) \<in> fst ` set (nodes (dagH s g))" by auto
        with keys show "q < nodeN ?s \<and> Id (nodeH ?s q) \<in> fst ` set (nodes (dagH ?s g))"
          by (auto simp: AddVertex_sel)
      qed
      with w pn show ?thesis by (simp add: AddVertex_sel)
    qed
  qed
  with d show ?thesis unfolding wf_dag_def by blast
qed

lemma push_prev_sub:
  "set (prev (nodeH (push_prev f xs s) p))
     \<subseteq> set (prev (nodeH s p)) \<union> insert f (set (prev (nodeH s f)))"
proof (induction xs arbitrary: s)
  case Nil
  then show ?case by auto
next
  case (Cons b bs)
  define s1 where "s1 = upd_node b (\<lambda>n. n\<lparr>prev := prev n @ [f]\<rparr>) s"
  define s2 where "s2 = upd_node b (\<lambda>n. n\<lparr>prev := prev n @ prev (nodeH s1 f)\<rparr>) s1"
  have step: "push_prev f (b # bs) s = push_prev f bs s2"
    by (simp add: Let_def s1_def s2_def)
  have "set (prev (nodeH (push_prev f bs s2) p))
          \<subseteq> set (prev (nodeH s2 p)) \<union> insert f (set (prev (nodeH s2 f)))"
    by (rule Cons.IH)
  moreover have "set (prev (nodeH s2 q)) \<subseteq> set (prev (nodeH s q)) \<union> insert f (set (prev (nodeH s f)))"
    for q by (auto simp: s1_def s2_def)
  ultimately show ?case unfolding step by blast
qed

lemma link_prev_sub:
  "set (prev (nodeH (link_prev s f t) p))
     \<subseteq> set (prev (nodeH s p)) \<union> insert f (set (prev (nodeH s f)))"
proof -
  define s1 where "s1 = upd_node t (\<lambda>n. n\<lparr>prev := prev n @ [f]\<rparr>) s"
  define s2 where "s2 = upd_node t (\<lambda>n. n\<lparr>prev := prev n @ prev (nodeH s1 f)\<rparr>) s1"
  have eq: "link_prev s f t = push_prev f (next (nodeH s2 t)) s2"
    unfolding link_prev_def Let_def s1_def s2_def by (rule refl)
  have "set (prev (nodeH (push_prev f (next (nodeH s2 t)) s2) p))
          \<subseteq> set (prev (nodeH s2 p)) \<union> insert f (set (prev (nodeH s2 f)))"
    by (rule push_prev_sub)
  moreover have "set (prev (nodeH s2 q)) \<subseteq> set (prev (nodeH s q)) \<union> insert f (set (prev (nodeH s f)))"
    for q by (auto simp: s1_def s2_def)
  ultimately show ?thesis unfolding eq by blast
qed

lemma link_nodes_prev:
  "prev (nodeH (link_nodes s g f t to) p) = prev (nodeH (link_prev (link_next s f t) f t) p)"
  by (simp add: link_nodes_def Let_def)

lemma link_nodes_prev_sub:
  "set (prev (nodeH (link_nodes s g f t to) p))
     \<subseteq> set (prev (nodeH s p)) \<union> insert f (set (prev (nodeH s f)))"
  using link_prev_sub [of "link_next s f t" f t p] unfolding link_nodes_prev by simp

lemma wf_dag_link_nodes:
  assumes wf: "wf_dag s g" and f: "(kf, f) \<in> set (nodes (dagH s g))"
  shows "wf_dag (link_nodes s g f t to) g"
proof -
  let ?s = "link_nodes s g f t to"
  note sel = link_nodes_store link_nodes_fixed link_nodes_degrees
  note wf_f = wf_dag_entry [OF wf f]
  have "p < nodeN ?s \<and> Id (nodeH ?s p) = k
        \<and> outdegree (nodeH ?s p) = int (length (children (nodeH ?s p)))
        \<and> (\<forall>q\<in>set (prev (nodeH ?s p)). q < nodeN ?s \<and> Id (nodeH ?s q) \<in> fst ` set (nodes (dagH ?s g)))"
    if e: "(k, p) \<in> set (nodes (dagH ?s g))" for k p
  proof -
    from e have e': "(k, p) \<in> set (nodes (dagH s g))" by (simp add: sel)
    note w = wf_dag_entry [OF wf e']
    have "\<forall>q\<in>set (prev (nodeH ?s p)). q < nodeN s \<and> Id (nodeH s q) \<in> fst ` set (nodes (dagH s g))"
    proof
      fix q assume "q \<in> set (prev (nodeH ?s p))"
      with link_nodes_prev_sub [of s g f t to p]
      have "q \<in> set (prev (nodeH s p)) \<or> q = f \<or> q \<in> set (prev (nodeH s f))" by auto
      then show "q < nodeN s \<and> Id (nodeH s q) \<in> fst ` set (nodes (dagH s g))"
        using w(5) wf_f(1,2,5) f by (auto simp: image_iff) force
    qed
    with w show ?thesis by (simp add: sel)
  qed
  moreover from wf have "distinct (map fst (nodes (dagH ?s g)))"
    by (simp add: sel wf_dag_def)
  ultimately show ?thesis unfolding wf_dag_def by blast
qed

lemma lookup_or_add_wf:
  assumes "wf_dag s g"
  shows "wf_dag (fst (lookup_or_add s g k)) g"
    "(k, snd (lookup_or_add s g k)) \<in> set (nodes (dagH (fst (lookup_or_add s g k)) g))"
proof -
  show "wf_dag (fst (lookup_or_add s g k)) g"
    using assms wf_dag_AddVertex [OF assms, of k "[]"]
    by (simp add: lookup_or_add_def split: option.split)
  show "(k, snd (lookup_or_add s g k)) \<in> set (nodes (dagH (fst (lookup_or_add s g k)) g))"
    by (auto simp: lookup_or_add_def AddVertex_sel update_has split: option.split dest: map_of_SomeD)
qed

lemma wf_dag_AddEdge:
  assumes "wf_dag s g"
  shows "wf_dag (fst (AddEdge s g from to)) g"
proof -
  define s1 where "s1 = fst (lookup_or_add s g from)"
  define f where "f = snd (lookup_or_add s g from)"
  define s2 where "s2 = fst (lookup_or_add s1 g to)"
  define t where "t = snd (lookup_or_add s1 g to)"
  have wf1: "wf_dag s1 g" unfolding s1_def by (rule lookup_or_add_wf [OF assms])
  have wf2: "wf_dag s2 g" unfolding s2_def by (rule lookup_or_add_wf [OF wf1])
  have f1: "(from, f) \<in> set (nodes (dagH s1 g))"
    unfolding s1_def f_def by (rule lookup_or_add_wf [OF assms])
  have f2: "(from, f) \<in> set (nodes (dagH s2 g))"
  proof (cases "map_of (nodes (dagH s1 g)) to")
    case None
    then have "to \<noteq> from" using f1 by (metis map_of_eq_None_iff fst_conv image_eqI)
    with None f1 show ?thesis
      by (simp add: s2_def lookup_or_add_def AddVertex_sel update_keeps)
  next
    case (Some p)
    with f1 show ?thesis by (simp add: s2_def lookup_or_add_def)
  qed
  have "fst (AddEdge s g from to) = s2 \<or> fst (AddEdge s g from to) = link_nodes s2 g f t to"
    by (simp add: AddEdge_def s1_def s2_def f_def t_def split_beta)
  with wf2 wf_dag_link_nodes [OF wf2 f2] show ?thesis by auto
qed

lemma plain_dag_AddVertex:
  assumes "plain_dag s g"
  shows "plain_dag (fst (AddVertex s g k ops)) g"
proof -
  from assms have wf: "wf_dag s g" and ns: "no_subgraphs s g" and nv: "\<not> validated (dagH s g)"
    by (simp_all add: plain_dag_def)
  let ?s = "fst (AddVertex s g k ops)"
  have "subDag (nodeH ?s p) = None \<and> conditionalDags (nodeH ?s p) = []"
    if "p \<in> snd ` set (nodes (dagH ?s g))" for p
  proof -
    from that obtain k' where "(k', p) \<in> set (AList.update k (nodeN s) (nodes (dagH s g)))"
      by (auto simp: AddVertex_sel)
    with wf have "p = nodeN s \<or> (k', p) \<in> set (nodes (dagH s g))"
      by (auto simp: wf_dag_def dest: update_entry)
    then show ?thesis
    proof
      assume "p = nodeN s"
      then show ?thesis by (simp add: AddVertex_sel zero_node_def)
    next
      assume e: "(k', p) \<in> set (nodes (dagH s g))"
      with wf_dag_entry(1) [OF wf e] ns show ?thesis
        by (force simp: AddVertex_sel no_subgraphs_def)
    qed
  qed
  then have "no_subgraphs ?s g" by (simp add: no_subgraphs_def)
  with wf_dag_AddVertex [OF wf] nv show ?thesis by (simp add: plain_dag_def AddVertex_sel)
qed

lemma plain_dag_lookup_or_add:
  "plain_dag s g \<Longrightarrow> plain_dag (fst (lookup_or_add s g k)) g"
  by (simp add: lookup_or_add_def plain_dag_AddVertex split: option.split)

lemma plain_dag_link_nodes:
  assumes "plain_dag s g" "(kf, f) \<in> set (nodes (dagH s g))"
  shows "plain_dag (link_nodes s g f t to) g"
  using assms wf_dag_link_nodes [of s g kf f t to]
  by (simp add: plain_dag_def no_subgraphs_def link_nodes_store link_nodes_fixed)

lemma plain_dag_AddEdge:
  assumes "plain_dag s g"
  shows "plain_dag (fst (AddEdge s g from to)) g"
proof -
  define s1 where "s1 = fst (lookup_or_add s g from)"
  define f where "f = snd (lookup_or_add s g from)"
  define s2 where "s2 = fst (lookup_or_add s1 g to)"
  define t where "t = snd (lookup_or_add s1 g to)"
  have p1: "plain_dag s1 g" unfolding s1_def by (rule plain_dag_lookup_or_add [OF assms])
  have p2: "plain_dag s2 g" unfolding s2_def by (rule plain_dag_lookup_or_add [OF p1])
  from assms have wf: "wf_dag s g" by (simp add: plain_dag_def)
  have f1: "(from, f) \<in> set (nodes (dagH s1 g))"
    unfolding s1_def f_def by (rule lookup_or_add_wf [OF wf])
  have f2: "(from, f) \<in> set (nodes (dagH s2 g))"
  proof (cases "map_of (nodes (dagH s1 g)) to")
    case None
    then have "to \<noteq> from" using f1 by (metis map_of_eq_None_iff fst_conv image_eqI)
    with None f1 show ?thesis
      by (simp add: s2_def lookup_or_add_def AddVertex_sel update_keeps)
  next
    case (Some p)
    with f1 show ?thesis by (simp add: s2_def lookup_or_add_def)
  qed
  have "fst (AddEdge s g from to) = s2 \<or> fst (AddEdge s g from to) = link_nodes s2 g f t to"
    by (simp add: AddEdge_def s1_def s2_def f_def t_def split_beta)
  with p2 plain_dag_link_nodes [OF p2 f2] show ?thesis by auto
qed

text \<open>Every graph that \<^verbatim>\<open>NewDag\<close>, \<^verbatim>\<open>AddVertex\<close> and \<^verbatim>\<open>AddEdge\<close> build is well formed,
  has no sub-graphs and is not validated. The three properties do not depend on the order
  of the entries of the map.\<close>

lemma built_plain: "built g s \<Longrightarrow> plain_dag s g"
proof (induction rule: built.induct)
  case (built_NewDag s0 s)
  then show ?case
    by (auto simp: NewDag_def Let_def plain_dag_def wf_dag_def no_subgraphs_def)
next
  case (built_AddVertex s k ops)
  then show ?case by (simp add: plain_dag_AddVertex)
next
  case (built_AddEdge s "from" to)
  then show ?case by (simp add: plain_dag_AddEdge)
qed

section \<open>Validation\<close>

text \<open>
  C4, at a failing input. The graph built by \<^verbatim>\<open>AddEdge("a", "a")\<close> has no node of
  outdegree 0, so \<^verbatim>\<open>Validate\<close> reaches \<^verbatim>\<open>endNodes[0]\<close> with an empty slice and panics,
  whatever depth of recursion it is allowed.
\<close>

theorem Validate_panics_on_self_loop:
  "map_option snd (Validate (Suc fuel) self_loop 0) = Some Panics"
  unfolding self_loop_def by (simp add: flow_eval cong: weak_congs)

subsection \<open>Graphs without sub-graphs\<close>



lemma uniqueId_erased:
  assumes "n'\<lparr>uniqueId := []\<rparr> = n\<lparr>uniqueId := []\<rparr>"
  shows "Id n' = Id n" "index n' = index n" "subDag n' = subDag n"
    "conditionalDags n' = conditionalDags n" "operations n' = operations n"
    "dynamic n' = dynamic n" "forwarder n' = forwarder n" "task n' = task n"
    "parentDag n' = parentDag n" "indegree n' = indegree n"
    "dynamicIndegree n' = dynamicIndegree n" "outdegree n' = outdegree n"
    "children n' = children n" "dependsOn n' = dependsOn n" "prev n' = prev n" "next n' = next n"
  using arg_cong [OF assms, of Id] arg_cong [OF assms, of index]
    arg_cong [OF assms, of subDag] arg_cong [OF assms, of conditionalDags]
    arg_cong [OF assms, of operations] arg_cong [OF assms, of dynamic]
    arg_cong [OF assms, of forwarder] arg_cong [OF assms, of task]
    arg_cong [OF assms, of parentDag] arg_cong [OF assms, of indegree]
    arg_cong [OF assms, of dynamicIndegree] arg_cong [OF assms, of outdegree]
    arg_cong [OF assms, of children] arg_cong [OF assms, of dependsOn] arg_cong [OF assms, of prev]
    arg_cong [OF assms, of "next"]
  by simp_all

lemma marks_erased:
  assumes "d'\<lparr>initialNode := None, executionFlow := False\<rparr>
             = d\<lparr>initialNode := None, executionFlow := False\<rparr>"
  shows "dagId d' = dagId d" "nodes d' = nodes d" "parentNode d' = parentNode d"
    "endNode d' = endNode d" "hasBranch d' = hasBranch d" "hasEdge d' = hasEdge d"
    "validated d' = validated d" "dataForwarderCount d' = dataForwarderCount d"
    "nodeIndex d' = nodeIndex d"
  using arg_cong [OF assms, of dagId] arg_cong [OF assms, of nodes]
    arg_cong [OF assms, of parentNode] arg_cong [OF assms, of endNode]
    arg_cong [OF assms, of hasBranch] arg_cong [OF assms, of hasEdge]
    arg_cong [OF assms, of validated] arg_cong [OF assms, of dataForwarderCount]
    arg_cong [OF assms, of nodeIndex]
  by simp_all

lemma only_marked_node:
  assumes "only_marked s s'"
  shows "(nodeH s' p)\<lparr>uniqueId := []\<rparr> = (nodeH s p)\<lparr>uniqueId := []\<rparr>"
  using assms by (simp add: only_marked_def)

lemma only_marked_dag:
  assumes "only_marked s s'"
  shows "(dagH s' d)\<lparr>initialNode := None, executionFlow := False\<rparr>
           = (dagH s d)\<lparr>initialNode := None, executionFlow := False\<rparr>"
  using assms by (simp add: only_marked_def)

lemmas only_marked_sel =
  uniqueId_erased [OF only_marked_node] marks_erased [OF only_marked_dag]

lemma only_marked_mark_node: "only_marked s (mark_node g b s)"
  by (simp add: only_marked_def mark_node_def Let_def)









text \<open>
  A graph can be attached to one of its own nodes: \<^verbatim>\<open>AddConditionalDag\<close> does not walk
  the chain of owners. \<^verbatim>\<open>Validate\<close> then calls itself on the same graph, which is not
  yet marked validated, and so on: no depth is enough for it to return.
\<close>

lemma validate_nodes_head:
  assumes "subDag (nodeH s b) = None"
  shows "validate_nodes rec g (b # bs) s c es =
     (case validate_conds rec g b (conditionalDags (nodeH s b)) (mark_node g b s) of
        None \<Rightarrow> None
      | Some (s5, Panics) \<Rightarrow> Some (s5, Inl Panics)
      | Some (s5, Returns (Some err)) \<Rightarrow> Some (s5, Inl (Returns (Some err)))
      | Some (s5, Returns None) \<Rightarrow>
          validate_nodes rec g bs s5
            (if indegree (nodeH s b) = 0 then c + 1 else c)
            (if outdegree (nodeH s b) = 0 then es @ [b] else es))"
  using assms by (simp add: mark_node_def Let_def validate_sub_def)

lemma nested_in_itself:
  assumes "\<not> validated (dagH s g)" "nodes (dagH s g) = [(k, b)]"
    "subDag (nodeH s b) = None" "conditionalDags (nodeH s b) = [(c, g)]"
  shows "Validate n s g = None"
  using assms
proof (induction n arbitrary: s)
  case 0
  then show ?case by simp
next
  case (Suc n)
  define s4 where "s4 = mark_node g b s"
  have m: "only_marked s s4" unfolding s4_def by (rule only_marked_mark_node)
  note sel = only_marked_sel [OF m]
  define s5 where "s5 = upd_dag g (\<lambda>d. d\<lparr>dagId :=
      (if dagId (dagH s4 g) \<noteq> ''0''
       then dagId (dagH s4 g) @ ''_'' @ string_of_int (index (nodeH s4 b)) @ ''_'' @ c
       else string_of_int (index (nodeH s4 b)) @ ''_'' @ c)\<rparr>) s4"
  have inv: "\<not> validated (dagH s5 g)" "nodes (dagH s5 g) = [(k, b)]"
    "subDag (nodeH s5 b) = None" "conditionalDags (nodeH s5 b) = [(c, g)]"
    using Suc.prems by (simp_all add: s5_def sel)
  from Suc.IH [OF inv] have rec: "Validate n s5 g = None" .
  have "validate_conds (Validate n) g b [(c, g)] s4 = None"
    using rec by (simp add: Let_def s5_def)
  then have "validate_nodes (Validate n) g [b] s 0 [] = None"
    using Suc.prems(3,4) by (simp add: validate_nodes_head s4_def del: validate_nodes.simps)
  then show ?case using Suc.prems by simp
qed

lemma self_nested_eval:
  "validated (dagH self_nested 0) = False" "nodes (dagH self_nested 0) = [(''a'', 0)]"
  "subDag (nodeH self_nested 0) = None" "conditionalDags (nodeH self_nested 0) = [(''c'', 0)]"
  unfolding self_nested_def AddConditionalDag_def
  by (simp_all add: Let_def one_vertex_eval zero_node_def upd_node_def upd_dag_def)

lemma Validate_self_nested: "Validate n self_nested 0 = None"
  by (rule nested_in_itself [where k = "''a''" and b = 0 and c = "''c''"])
     (simp_all add: self_nested_eval)







subsection \<open>The flag validated is never cleared\<close>

lemma validate_nodes_Inl:
  "validate_nodes rec g bs s c es = Some (s', Inl out) \<Longrightarrow> out \<noteq> Returns None"
proof (induction bs arbitrary: s c es)
  case Nil
  then show ?case by simp
next
  case (Cons b bs)
  then show ?case
    by (auto simp: Let_def split: option.splits prod.splits outcome.splits if_splits)
qed

lemma Validate_sets_validated:
  assumes "Validate n s g = Some (s', Returns None)"
  shows "validated (dagH s' g)"
proof (cases n)
  case 0
  with assms show ?thesis by simp
next
  case (Suc fuel)
  with assms show ?thesis
    by (auto simp: Let_def upd_dag_def
             split: if_splits option.splits prod.splits sum.splits list.splits
             dest: validate_nodes_Inl)
qed

lemma keeps_refl: "keeps_validated s s"
  by (simp add: keeps_validated_def)

lemma keeps_trans: "keeps_validated s s1 \<Longrightarrow> keeps_validated s1 s2 \<Longrightarrow> keeps_validated s s2"
  by (auto simp: keeps_validated_def)

lemma keeps_upd_node: "keeps_validated s (upd_node p f s)"
  by (simp add: keeps_validated_def)

lemma keeps_upd_dag:
  "(validated (dagH s d) \<longrightarrow> validated (f (dagH s d))) \<Longrightarrow> keeps_validated s (upd_dag d f s)"
  by (simp add: keeps_validated_def)

lemma keeps_NewDag: "keeps_validated s (fst (NewDag s))"
  by (simp add: keeps_validated_def NewDag_def Let_def)

lemma keeps_AddVertex: "keeps_validated s (fst (AddVertex s g k ops))"
  by (simp add: keeps_validated_def AddVertex_sel)

lemma keeps_AddForwarder: "keeps_validated s (AddForwarder s n c fw)"
  by (simp add: keeps_validated_def)

lemma keeps_AddForEach: "keeps_validated s (AddForEach s n fe)"
  by (simp add: keeps_validated_def AddForEach_def Let_def)

lemma keeps_AddCondition: "keeps_validated s (AddCondition s n cnd)"
  by (simp add: keeps_validated_def AddCondition_def Let_def)

lemma keeps_AddSubDag: "AddSubDag fuel s n d = Some (s', err) \<Longrightarrow> keeps_validated s s'"
  by (auto simp: keeps_validated_def AddSubDag_def Let_def split: option.splits bool.splits)

lemma keeps_AddForEachDag: "keeps_validated s (fst (AddForEachDag s n d))"
  by (simp add: keeps_validated_def AddForEachDag_def Let_def)

lemma keeps_AddConditionalDag: "keeps_validated s (AddConditionalDag s n c d)"
  by (simp add: keeps_validated_def AddConditionalDag_def Let_def)

lemma keeps_link_nodes: "keeps_validated s (link_nodes s g f t to)"
  by (simp add: keeps_validated_def link_nodes_store)

lemma keeps_lookup_or_add: "keeps_validated s (fst (lookup_or_add s g k))"
  by (simp add: lookup_or_add_def keeps_refl keeps_AddVertex split: option.split)

lemma keeps_AddEdge: "keeps_validated s (fst (AddEdge s g from to))"
proof -
  define s1 where "s1 = fst (lookup_or_add s g from)"
  define s2 where "s2 = fst (lookup_or_add s1 g to)"
  have k2: "keeps_validated s s2"
    unfolding s1_def s2_def by (rule keeps_trans [OF keeps_lookup_or_add keeps_lookup_or_add])
  have "fst (AddEdge s g from to) = s2
        \<or> fst (AddEdge s g from to)
            = link_nodes s2 g (snd (lookup_or_add s g from)) (snd (lookup_or_add s1 g to)) to"
    by (simp add: AddEdge_def s1_def s2_def split_beta)
  with k2 keeps_trans [OF k2 keeps_link_nodes] show ?thesis by auto
qed

lemma Append_loop_keeps: "keeps_validated s (fst (Append_loop s g d xs))"
proof (induction xs arbitrary: s)
  case Nil
  then show ?case by (simp add: keeps_refl)
next
  case (Cons x xs)
  obtain k p where x: "x = (k, p)" by (cases x)
  show ?case
  proof (cases "map_of (nodes (dagH s d)) k")
    case None
    have "keeps_validated s (upd_dag g (\<lambda>d. d\<lparr>nodes := AList.update k p (nodes d)\<rparr>) s)"
      by (rule keeps_upd_dag) simp
    from keeps_trans [OF this Cons.IH] None x show ?thesis by simp
  next
    case (Some q)
    with x show ?thesis by (simp add: keeps_refl)
  qed
qed

lemma keeps_Append: "keeps_validated s (fst (Append s g d))"
  by (simp add: Append_def Append_loop_keeps)

lemma keeps_merge_flags: "keeps_validated s (merge_flags g sub s)"
  by (simp add: keeps_validated_def merge_flags_def Let_def)

lemma keeps_connect_ends: "keeps_validated s (fst (connect_ends g endId bs s))"
proof (induction bs arbitrary: s)
  case Nil
  then show ?case by (simp add: keeps_refl)
next
  case (Cons b bs)
  show ?case
  proof (cases "snd (AddEdge s g (Id (nodeH s b)) endId)")
    case None
    then have "connect_ends g endId (b # bs) s
        = connect_ends g endId bs (AddForwarder (fst (AddEdge s g (Id (nodeH s b)) endId)) b endId None)"
      by (simp add: split_beta)
    moreover have "keeps_validated s (AddForwarder (fst (AddEdge s g (Id (nodeH s b)) endId)) b endId None)"
      by (rule keeps_trans [OF keeps_AddEdge keeps_AddForwarder])
    ultimately show ?thesis using keeps_trans [OF _ Cons.IH] by simp
  next
    case (Some e)
    then have "fst (connect_ends g endId (b # bs) s) = fst (AddEdge s g (Id (nodeH s b)) endId)"
      by (simp add: split_beta)
    then show ?thesis by (simp add: keeps_AddEdge)
  qed
qed

lemma validate_sub_keeps:
  assumes rec: "\<And>s h s' out. rec s h = Some (s', out) \<Longrightarrow> keeps_validated s s'"
    and v: "validate_sub rec g b s = Some (s', out)"
  shows "keeps_validated s s'"
proof (cases "subDag (nodeH s b)")
  case None
  with v show ?thesis by (simp add: validate_sub_def keeps_refl)
next
  case (Some sub)
  define s1 where "s1 = upd_dag sub (\<lambda>d. d\<lparr>dagId :=
      (if dagId (dagH s g) \<noteq> ''0''
       then dagId (dagH s g) @ ''_'' @ string_of_int (index (nodeH s b))
       else string_of_int (index (nodeH s b)))\<rparr>) s"
  have k1: "keeps_validated s s1" unfolding s1_def by (rule keeps_upd_dag) simp
  from v Some obtain s2 out2 where r: "rec s1 sub = Some (s2, out2)"
    and s': "s' = s2 \<or> s' = merge_flags g sub s2"
    by (auto simp: validate_sub_def Let_def s1_def split: option.splits outcome.splits)
  from rec [OF r] have k2: "keeps_validated s1 s2" .
  from s' show ?thesis
  proof
    assume "s' = s2"
    with keeps_trans [OF k1 k2] show ?thesis by simp
  next
    assume "s' = merge_flags g sub s2"
    with keeps_trans [OF keeps_trans [OF k1 k2] keeps_merge_flags] show ?thesis by simp
  qed
qed

lemma validate_conds_keeps:
  assumes rec: "\<And>s h s' out. rec s h = Some (s', out) \<Longrightarrow> keeps_validated s s'"
    and v: "validate_conds rec g b cs s = Some (s', out)"
  shows "keeps_validated s s'"
  using v
proof (induction cs arbitrary: s)
  case Nil
  then show ?case by (simp add: keeps_refl)
next
  case (Cons c cs)
  obtain cond cdag where c: "c = (cond, cdag)" by (cases c)
  define s1 where "s1 = upd_dag cdag (\<lambda>d. d\<lparr>dagId :=
      (if dagId (dagH s g) \<noteq> ''0''
       then dagId (dagH s g) @ ''_'' @ string_of_int (index (nodeH s b)) @ ''_'' @ cond
       else string_of_int (index (nodeH s b)) @ ''_'' @ cond)\<rparr>) s"
  have k1: "keeps_validated s s1" unfolding s1_def by (rule keeps_upd_dag) simp
  from Cons.prems c obtain s2 out2 where r: "rec s1 cdag = Some (s2, out2)"
    and s': "s' = s2 \<or> validate_conds rec g b cs (merge_flags g cdag s2) = Some (s', out)"
    by (auto simp: Let_def s1_def split: option.splits outcome.splits)
  from rec [OF r] have k2: "keeps_validated s1 s2" .
  from s' show ?case
  proof
    assume "s' = s2"
    with keeps_trans [OF k1 k2] show ?thesis by simp
  next
    assume "validate_conds rec g b cs (merge_flags g cdag s2) = Some (s', out)"
    from Cons.IH [OF this] have "keeps_validated (merge_flags g cdag s2) s'" .
    with keeps_trans [OF keeps_trans [OF k1 k2] keeps_merge_flags] show ?thesis
      by (rule keeps_trans)
  qed
qed

lemma keeps_mark_start:
  "keeps_validated s
     (if c then upd_dag g (\<lambda>d. d\<lparr>initialNode := Some b\<rparr>) (upd_node b f s) else upd_node b f s)"
  by (simp add: keeps_validated_def)

lemma validate_nodes_keeps:
  assumes rec: "\<And>s h s' out. rec s h = Some (s', out) \<Longrightarrow> keeps_validated s s'"
    and v: "validate_nodes rec g bs s c es = Some (s', r)"
  shows "keeps_validated s s'"
  using v
proof (induction bs arbitrary: s c es)
  case Nil
  then show ?case by (simp add: keeps_refl)
next
  case (Cons b bs)
  define s1 where "s1 = upd_node b (\<lambda>n. n\<lparr>uniqueId := generateUniqueId n (dagId (dagH s g))\<rparr>) s"
  define s2 where "s2 = (if indegree (nodeH s1 b) = 0
      then upd_dag g (\<lambda>d. d\<lparr>initialNode := Some b\<rparr>) s1 else s1)"
  have k2: "keeps_validated s s2"
    unfolding s2_def s1_def by (simp add: keeps_validated_def)
  from Cons.prems obtain s3 out3 where sub: "validate_sub rec g b s2 = Some (s3, out3)"
    by (auto simp: Let_def s1_def s2_def split: option.splits if_splits)
  from validate_sub_keeps [OF rec sub] have k3: "keeps_validated s2 s3" .
  define s4 where "s4 = (if dynamic (nodeH s3 b)
         \<and> (case forwarder (nodeH s3 b) ''dynamic'' of Some (Some f) \<Rightarrow> True | _ \<Rightarrow> False)
      then upd_dag g (\<lambda>d. d\<lparr>executionFlow := False\<rparr>) s3 else s3)"
  have k4: "keeps_validated s3 s4" unfolding s4_def by (simp add: keeps_validated_def)
  note k = keeps_trans [OF keeps_trans [OF k2 k3] k4]
  show ?case
  proof (cases "out3 = Returns None")
    case False
    with Cons.prems sub have "s' = s3"
      by (cases out3) (auto simp: Let_def s1_def s2_def split: if_splits option.splits)
    with keeps_trans [OF k2 k3] show ?thesis by simp
  next
    case True
    with Cons.prems sub obtain s5 out5 where
      cs: "validate_conds rec g b (conditionalDags (nodeH s4 b)) s4 = Some (s5, out5)"
      by (auto simp: Let_def s1_def s2_def s4_def split: if_splits option.splits)
    from validate_conds_keeps [OF rec cs] have k5: "keeps_validated s4 s5" .
    show ?thesis
    proof (cases "out5 = Returns None")
      case False
      with Cons.prems sub True cs have "s' = s5"
        by (cases out5) (auto simp: Let_def s1_def s2_def s4_def split: if_splits option.splits)
      with keeps_trans [OF k k5] show ?thesis by simp
    next
      case out5: True
      with Cons.prems sub True cs obtain c' es' where
        "validate_nodes rec g bs s5 c' es' = Some (s', r)"
        by (auto simp: Let_def s1_def s2_def s4_def split: if_splits option.splits)
      from Cons.IH [OF this] keeps_trans [OF k k5] show ?thesis by (rule keeps_trans [rotated])
    qed
  qed
qed

lemma Validate_keeps: "Validate n s g = Some (s', out) \<Longrightarrow> keeps_validated s s'"
proof (induction n arbitrary: s g s' out)
  case 0
  then show ?case by simp
next
  case (Suc n)
  show ?case
  proof (cases "validated (dagH s g) \<or> nodes (dagH s g) = []")
    case True
    with Suc.prems show ?thesis by (auto simp: keeps_refl split: if_splits)
  next
    case False
    with Suc.prems obtain s1 r where
      loop: "validate_nodes (Validate n) g (map snd (nodes (dagH s g))) s 0 [] = Some (s1, r)"
      by (auto split: option.splits)
    from validate_nodes_keeps [OF Suc.IH loop] have k1: "keeps_validated s s1" by simp
    define s2 where "s2 = fst (AddVertex s1 g (''end_'' @ dagId (dagH s1 g)) [BlankOperation])"
    define s3 where "s3 = fst (connect_ends g (''end_'' @ dagId (dagH s1 g)) (snd (projr r)) s2)"
    have k3: "keeps_validated s s3"
      unfolding s3_def s2_def
      by (rule keeps_trans [OF keeps_trans [OF k1 keeps_AddVertex] keeps_connect_ends])
    have fin: "keeps_validated x (upd_dag g (\<lambda>d. d\<lparr>validated := True\<rparr>)
                          (upd_dag g (\<lambda>d. d\<lparr>endNode := e\<rparr>) x))" for x e
      by (simp add: keeps_validated_def)
    from Suc.prems False loop have
      "s' = s1 \<or> s' = s3
       \<or> (\<exists>e. s' = upd_dag g (\<lambda>d. d\<lparr>validated := True\<rparr>) (upd_dag g (\<lambda>d. d\<lparr>endNode := e\<rparr>) s3))
       \<or> (\<exists>e. s' = upd_dag g (\<lambda>d. d\<lparr>validated := True\<rparr>) (upd_dag g (\<lambda>d. d\<lparr>endNode := e\<rparr>) s1))"
      unfolding s3_def s2_def
      by (cases r)
         (auto simp: Let_def split_beta split: if_splits option.splits list.splits)
    with k1 k3 keeps_trans [OF k1 fin] keeps_trans [OF k3 fin] show ?thesis by auto
  qed
qed

lemma later_keeps: "later s s' \<Longrightarrow> keeps_validated s s'"
proof (induction rule: later.induct)
  case later_now
  show ?case by (rule keeps_refl)
next
  case (later_NewDag s1)
  then show ?case by (blast intro: keeps_trans keeps_NewDag)
next
  case (later_AddVertex s1 d k ops)
  then show ?case by (blast intro: keeps_trans keeps_AddVertex)
next
  case (later_AddEdge s1 d "from" to)
  then show ?case by (blast intro: keeps_trans keeps_AddEdge)
next
  case (later_AddForwarder s1 n c fw)
  then show ?case by (blast intro: keeps_trans keeps_AddForwarder)
next
  case (later_Append s1 d a)
  then show ?case by (blast intro: keeps_trans keeps_Append)
next
  case (later_AddForEach s1 n fe)
  then show ?case by (blast intro: keeps_trans keeps_AddForEach)
next
  case (later_AddCondition s1 n cnd)
  then show ?case by (blast intro: keeps_trans keeps_AddCondition)
next
  case (later_AddSubDag s1 fuel n d s2 err)
  from later_AddSubDag.IH keeps_AddSubDag [OF later_AddSubDag.hyps(2)] show ?case
    by (rule keeps_trans)
next
  case (later_AddForEachDag s1 n d)
  then show ?case by (blast intro: keeps_trans keeps_AddForEachDag)
next
  case (later_AddConditionalDag s1 n c d)
  then show ?case by (blast intro: keeps_trans keeps_AddConditionalDag)
next
  case (later_Validate s1 fuel d s2 out)
  from later_Validate.IH Validate_keeps [OF later_Validate.hyps(2)] show ?case
    by (rule keeps_trans)
qed

text \<open>
  C9. Once a call of \<^verbatim>\<open>Validate\<close> on a graph has returned nil, every later call on that
  graph returns nil as soon as it has any depth to run, and leaves the store as it is: no
  node gets another \<^verbatim>\<open>uniqueId\<close>, nothing is mutated. This holds whatever calls of the
  package (construction, attachment of sub-graphs, \<^verbatim>\<open>Validate\<close> on any graph) come in
  between.
\<close>

theorem Validate_idempotent:
  assumes "g < dagN s" "Validate n s g = Some (s', Returns None)" "later s' s''"
  shows "Validate (Suc m) s'' g = Some (s'', Returns None)"
proof -
  from Validate_keeps [OF assms(2)] assms(1) have "g < dagN s'"
    by (simp add: keeps_validated_def)
  moreover from Validate_sets_validated [OF assms(2)] have "validated (dagH s' g)" .
  ultimately have "validated (dagH s'' g)"
    using later_keeps [OF assms(3)] by (simp add: keeps_validated_def)
  then show ?thesis by simp
qed

theorem Validate_idempotent_witness:
  "map_option snd (Validate 1 one_vertex 0) = Some (Returns None)
   \<and> later (fst (the (Validate 1 one_vertex 0))) revalidated
   \<and> Validate 1 revalidated 0 = Some (revalidated, Returns None)"
proof -
  have v: "map_option snd (Validate 1 one_vertex 0) = Some (Returns None)"
    unfolding one_vertex_def One_nat_def by (simp add: flow_eval cong: weak_congs)
  then obtain s' where s': "Validate 1 one_vertex 0 = Some (s', Returns None)"
    by (cases "Validate 1 one_vertex 0") auto
  have l: "later s' revalidated"
    unfolding revalidated_def s' by (simp add: later_AddVertex later_now)
  have a: "0 < dagN one_vertex"
    unfolding one_vertex_def by (simp add: flow_eval cong: weak_congs)
  from Validate_idempotent [OF a s' l, of 0] v l s' show ?thesis by simp
qed

section \<open>The scheduler\<close>

subsection \<open>Computed runs are runs\<close>

lemma do_step_step: "do_step c who st = Some st' \<Longrightarrow> step c st st'"
  by (auto simp: do_step_def split: if_splits option.splits intro: step.intros)

lemma run_sched_steps: "run_sched c sch st = Some st' \<Longrightarrow> (step c)\<^sup>*\<^sup>* st st'"
proof (induction sch arbitrary: st)
  case Nil
  then show ?case by simp
next
  case (Cons who rest)
  then obtain st1 where a: "do_step c who st = Some st1" and b: "run_sched c rest st1 = Some st'"
    by (auto split: option.splits)
  from a have "step c st st1" by (rule do_step_step)
  moreover from b have "(step c)\<^sup>*\<^sup>* st1 st'" by (rule Cons.IH)
  ultimately show ?case by (rule converse_rtranclp_into_rtranclp)
qed


lemma writing_run:
  "run_sched c [None, None, None, Some 0, Some 0] (Run_start writing_graph (NewFlow writing_graph 0))
     = Some writing_end"
  by (simp add: run_eval writing_graph_eval zero_node_def writing_task_def writing_end_def
           cong: weak_congs)

subsection \<open>The channel is never closed\<close>

lemma main_step_closed:
  "main_step st = Some st' \<Longrightarrow> closed (readyChan (flow st')) = closed (readyChan (flow st))"
  by (auto simp: main_step_def chan_send_def split: main_pc.splits list.splits if_splits option.splits)

lemma main_step_Returned:
  "main_step st = Some st' \<Longrightarrow> main st' = Returned \<Longrightarrow> closed (readyChan (flow st))"
  by (auto simp: main_step_def chan_send_def split: main_pc.splits list.splits if_splits option.splits)

lemma go_step_closed:
  "go_step c g st = Some (g', st') \<Longrightarrow>
     closed (readyChan (flow st')) = closed (readyChan (flow st)) \<and> main st' = main st"
  by (auto simp: go_step_def chan_send_def Let_def split: go_pc.splits list.splits if_splits option.splits prod.splits)

lemma step_open:
  "step c st st' \<Longrightarrow> \<not> closed (readyChan (flow st)) \<Longrightarrow> main st \<noteq> Returned \<Longrightarrow>
     \<not> closed (readyChan (flow st')) \<and> main st' \<noteq> Returned"
proof (induction rule: step.induct)
  case (step_main st st')
  then show ?case using main_step_closed main_step_Returned by blast
next
  case (step_go st i g' st')
  then show ?case using go_step_closed [of c "gos st ! i" st g' st'] by simp
qed

lemma steps_open:
  "(step c)\<^sup>*\<^sup>* st st' \<Longrightarrow> \<not> closed (readyChan (flow st)) \<Longrightarrow> main st \<noteq> Returned \<Longrightarrow>
     \<not> closed (readyChan (flow st')) \<and> main st' \<noteq> Returned"
  by (induction rule: rtranclp_induct) (auto dest: step_open)

text \<open>
  C5, on every graph. \<^verbatim>\<open>Run\<close> never gets past its second loop: \<^verbatim>\<open>range\<close> over the ready
  channel ends only when the channel is closed, no statement of the package closes it,
  and no count of the nodes still to finish is kept. Whatever the interleaving, the
  caller's goroutine has not returned.
\<close>

theorem Run_never_returns:
  "(step c)\<^sup>*\<^sup>* (Run_start s (NewFlow s d)) st \<Longrightarrow> main st \<noteq> Returned"
  using steps_open [of c "Run_start s (NewFlow s d)" st]
  by (simp add: Run_start_def NewFlow_def)

theorem Run_never_returns_witness:
  "(step True)\<^sup>*\<^sup>* (Run_start writing_graph (NewFlow writing_graph 0)) writing_end
   \<and> main writing_end \<noteq> Returned \<and> gos writing_end = []
   \<and> buf (readyChan (flow writing_end)) = []"
  using Run_never_returns [OF run_sched_steps [OF writing_run [of True]]]
    run_sched_steps [OF writing_run [of True]]
  by (simp add: writing_end_def)

subsection \<open>The flag validated is not read\<close>

lemma nodeH_mark [simp]: "nodeH (mark_validated b s) = nodeH s"
  by (simp add: mark_validated_def)

lemma nodes_mark [simp]: "nodes (dagH (mark_validated b s) d) = nodes (dagH s d)"
  by (simp add: mark_validated_def)


lemma with_store_sel [simp]:
  "store (with_store f st) = f (store st)" "flow (with_store f st) = flow st"
  "main (with_store f st) = main st" "gos (with_store f st) = gos st"
  "executed (with_store f st) = executed st" "crashed (with_store f st) = crashed st"
  by (simp_all add: with_store_def)

lemma with_store_upd [simp]:
  "with_store f (st\<lparr>main := m\<rparr>) = (with_store f st)\<lparr>main := m\<rparr>"
  "with_store f (st\<lparr>flow := fl\<rparr>) = (with_store f st)\<lparr>flow := fl\<rparr>"
  "with_store f (st\<lparr>gos := gs\<rparr>) = (with_store f st)\<lparr>gos := gs\<rparr>"
  "with_store f (st\<lparr>executed := ex\<rparr>) = (with_store f st)\<lparr>executed := ex\<rparr>"
  "with_store f (st\<lparr>crashed := cr\<rparr>) = (with_store f st)\<lparr>crashed := cr\<rparr>"
  "with_store f (st\<lparr>store := x\<rparr>) = st\<lparr>store := f x\<rparr>"
  by (simp_all add: with_store_def)







subsection \<open>The error of a task is not read\<close>







end
